theory Spec2Isabelle
  imports Complex_Main
begin

section \<open>Strings of the toolkit\<close>

text \<open>
  A \<open>QString\<close> is a sequence of UTF-16 code units. It is modelled as a list of
  Isabelle characters, read as the code points U+0000 to U+00FF: the model covers the
  strings made of Latin-1 characters, which include every string the examples of the
  specification use. The toolkit is not part of the repository; the functions below
  follow its reference documentation.

  \<open>QChar::isSpace\<close> is true for a separator character and for the control
  characters U+0009 to U+000D and U+0085. Below U+0100 these are tab, line feed,
  vertical tab, form feed, carriage return, space, next line (U+0085) and the
  no-break space (U+00A0). \<open>QString::trimmed\<close> removes the characters for which
  \<open>QChar::isSpace\<close> holds from both ends.
\<close>

definition isSpace :: "char \<Rightarrow> bool" where
  "isSpace c =
     (let ucs = (of_char c :: nat)
      in ucs = 0x20 \<or> (ucs \<le> 0x0D \<and> ucs \<ge> 0x09)
         \<or> (ucs > 127 \<and> (ucs = 0x85 \<or> ucs = 0xA0)))"

definition trimmed :: "string \<Rightarrow> string" where
  "trimmed s = rev (dropWhile isSpace (rev (dropWhile isSpace s)))"

text \<open>
  \<open>QString::toLower\<close> maps each character to its lower case. Below U+0100 the
  upper-case letters are A to Z and U+00C0 to U+00DE without the multiplication sign
  U+00D7; the lower case of each is 32 code points above it.
\<close>

definition toLower_char :: "char \<Rightarrow> char" where
  "toLower_char c =
     (let ucs = (of_char c :: nat)
      in if (0x41 \<le> ucs \<and> ucs \<le> 0x5A) \<or> (0xC0 \<le> ucs \<and> ucs \<le> 0xDE \<and> ucs \<noteq> 0xD7)
         then char_of (ucs + 32) else c)"

definition toLower :: "string \<Rightarrow> string" where
  "toLower s = map toLower_char s"

text \<open>
  \<open>QString::startsWith\<close>, case sensitive and with \<open>Qt::CaseInsensitive\<close>. The
  case-insensitive comparison folds the case of both sides; the prefixes the program
  passes are ASCII letters, and below U+0100 a character folds to an ASCII letter
  exactly when its lower case is that letter.
\<close>

definition startsWith :: "string \<Rightarrow> string \<Rightarrow> bool" where
  "startsWith s prefix = (take (length prefix) s = prefix)"

definition startsWith_CaseInsensitive :: "string \<Rightarrow> string \<Rightarrow> bool" where
  "startsWith_CaseInsensitive s prefix =
     (length prefix \<le> length s \<and> toLower (take (length prefix) s) = toLower prefix)"

text \<open>
  \<open>QString::split(QChar)\<close> with the default \<open>Qt::KeepEmptyParts\<close>: the pieces
  between the separators, empty ones included; a string without the separator is the
  single piece.
\<close>

fun split_char :: "char \<Rightarrow> string \<Rightarrow> string list" where
  "split_char sep [] = [[]]"
| "split_char sep (c # cs) =
     (if c = sep then [] # split_char sep cs
      else (let parts = split_char sep cs in (c # hd parts) # tl parts))"

text \<open>
  The character classes of \<open>QRegularExpression\<close>. The program sets no pattern
  option, and without \<open>UseUnicodePropertiesOption\<close> the classes \<open>\s\<close> and \<open>\d\<close>
  match ASCII characters only: \<open>\s\<close> is tab, line feed, vertical tab, form feed,
  carriage return and space, \<open>\d\<close> is the digits 0 to 9.
\<close>

definition re_space :: "char \<Rightarrow> bool" where
  "re_space c = (let ucs = (of_char c :: nat) in ucs = 0x20 \<or> (0x09 \<le> ucs \<and> ucs \<le> 0x0D))"

definition re_digit :: "char \<Rightarrow> bool" where
  "re_digit c = (let ucs = (of_char c :: nat) in 0x30 \<le> ucs \<and> ucs \<le> 0x39)"

text \<open>
  \<open>QString::toInt\<close> in base 10, on the strings the program passes to it, which are
  non-empty runs of \<open>\d\<close>: the value of the digits, and failure (\<open>ok = false\<close>)
  when the value does not fit a 32-bit \<open>int\<close>. Any other string is a failure here.
\<close>

definition digit_value :: "char \<Rightarrow> int" where
  "digit_value c = of_char c - 0x30"

definition digits_value :: "string \<Rightarrow> int" where
  "digits_value s = foldl (\<lambda>acc c. 10 * acc + digit_value c) 0 s"

definition toInt :: "string \<Rightarrow> int option" where
  "toInt s =
     (if s \<noteq> [] \<and> list_all re_digit s \<and> digits_value s \<le> 2147483647
      then Some (digits_value s) else None)"

text \<open>
  \<open>QList::value(i, defaultValue)\<close>: the element at \<open>i\<close> when \<open>i\<close> is in range, the
  default otherwise.
\<close>

definition value_at :: "'a list \<Rightarrow> nat \<Rightarrow> 'a \<Rightarrow> 'a" where
  "value_at xs i defaultValue = (if i < length xs then xs ! i else defaultValue)"

text \<open>
  \<open>QTextStream << int\<close> writes the decimal digits of the number; the program only
  writes positive question numbers.
\<close>

fun decimal :: "nat \<Rightarrow> string" where
  "decimal n =
     (if n < 10 then [char_of (0x30 + n)]
      else decimal (n div 10) @ [char_of (0x30 + n mod 10)])"

declare decimal.simps [simp del]

section \<open>Answer normalisation and evaluation (SectionPanel.cpp)\<close>

text \<open>
  \<open>normalizeAnswer\<close>: trim, lower-case, then replace every match of \<open>[\s\-]+\<close> by
  the empty string. The matches are the maximal runs of characters of the class, so the
  replacement deletes exactly the characters of the class.
\<close>

definition normalizeAnswer :: "string \<Rightarrow> string" where
  "normalizeAnswer raw =
     (let cleaned = toLower (trimmed raw)
      in filter (\<lambda>c. \<not> (re_space c \<or> c = CHR ''-'')) cleaned)"

text \<open>
  The words of the specification about \<open>normalize\<close>, for comparison. Two strings
  differ only in letter case, white space and hyphens when they agree once the white
  space (any character of \<open>QChar::isSpace\<close>) and the hyphens are left out and the
  letters are put in lower case. A string has only ASCII white space when each of its
  white space characters is one that \<open>\s\<close> matches.
\<close>

definition strip_case_space_hyphen :: "string \<Rightarrow> string" where
  "strip_case_space_hyphen s = toLower (filter (\<lambda>c. \<not> isSpace c \<and> c \<noteq> CHR ''-'') s)"

definition differ_only_in_case_space_hyphen :: "string \<Rightarrow> string \<Rightarrow> bool" where
  "differ_only_in_case_space_hyphen x y = (strip_case_space_hyphen x = strip_case_space_hyphen y)"

definition ascii_whitespace_only :: "string \<Rightarrow> bool" where
  "ascii_whitespace_only s = list_all (\<lambda>c. isSpace c \<longrightarrow> re_space c) s"

text \<open>
  A \<open>SectionPanel\<close> holds three vectors of widgets, one entry per question: the
  user's line edit, the key's line edit and the status label (the fields \<open>userEdits_\<close>,
  \<open>keyEdits_\<close> and \<open>statusLabels_\<close>, beside \<open>sectionName_\<close> and \<open>groups_\<close>). The model keeps the text
  of each line edit and the content of each label. A label is empty (\<open>clear()\<close>), or
  shows the green check mark or the red cross that \<open>evaluate\<close> sets.
\<close>

datatype verdict = NoVerdict | Correct | Incorrect

record GroupSpec =
  title :: string
  count :: int

record SectionPanel =
  panelSectionName :: string
  panelGroups :: "GroupSpec list"
  userEdits :: "string list"
  keyEdits :: "string list"
  statusLabels :: "verdict list"

text \<open>
  \<open>buildGrid\<close> appends one line edit to \<open>userEdits_\<close>, one to \<open>keyEdits_\<close> and one
  label to \<open>statusLabels_\<close> for every row of every group; a group whose count is not
  positive has no row. All three start empty.
\<close>

definition buildGrid :: "string \<Rightarrow> GroupSpec list \<Rightarrow> SectionPanel" where
  "buildGrid name gs =
     (let n = sum_list (map (\<lambda>g. nat (count g)) gs)
      in \<lparr>panelSectionName = name, panelGroups = gs,
          userEdits = replicate n [], keyEdits = replicate n [],
          statusLabels = replicate n NoVerdict\<rparr>)"

text \<open>The three vectors have one entry per question: what \<open>buildGrid\<close> establishes.\<close>

definition panel_inv :: "SectionPanel \<Rightarrow> bool" where
  "panel_inv panel =
     (length (keyEdits panel) = length (userEdits panel) \<and>
      length (statusLabels panel) = length (userEdits panel))"

definition answers :: "SectionPanel \<Rightarrow> string list" where
  "answers panel = map trimmed (userEdits panel)"

definition answerKeys :: "SectionPanel \<Rightarrow> string list" where
  "answerKeys panel = map trimmed (keyEdits panel)"

definition questionCount :: "SectionPanel \<Rightarrow> int" where
  "questionCount panel = int (length (userEdits panel))"

text \<open>
  One iteration of the loop of \<open>SectionPanel::evaluate\<close>, on the panel and the two
  counters, and the loop over \<open>i = 0 .. total - 1\<close>. The counters are C++ \<open>int\<close>s
  that count at most \<open>total\<close> steps from zero, so they cannot overflow.
\<close>

definition evaluate_step :: "nat \<Rightarrow> SectionPanel \<times> int \<times> int \<Rightarrow> SectionPanel \<times> int \<times> int" where
  "evaluate_step i st =
     (case st of (panel, correct, evaluated) \<Rightarrow>
        let key = trimmed (keyEdits panel ! i)
        in if key = []
           then (panel\<lparr>statusLabels := (statusLabels panel)[i := NoVerdict]\<rparr>,
                 correct, evaluated)
           else
             let user = trimmed (userEdits panel ! i);
                 ok = (normalizeAnswer user = normalizeAnswer key)
             in (panel\<lparr>statusLabels :=
                          (statusLabels panel)[i := if ok then Correct else Incorrect]\<rparr>,
                 if ok then correct + 1 else correct, evaluated + 1))"

definition evaluate :: "SectionPanel \<Rightarrow> SectionPanel \<times> (int \<times> int)" where
  "evaluate panel =
     (let total = length (userEdits panel)
      in case fold evaluate_step [0..<total] (panel, 0, 0) of
           (panel', correct, evaluated) \<Rightarrow> (panel', (correct, evaluated)))"

text \<open>
  The question slot of the specification at index \<open>i\<close>: the user's answer and the key
  as the loop reads them, and the verdict the slot ends with.
\<close>

definition slot_at :: "SectionPanel \<Rightarrow> nat \<Rightarrow> string \<times> string" where
  "slot_at panel i = (trimmed (userEdits panel ! i), trimmed (keyEdits panel ! i))"

definition slot_verdict :: "string \<Rightarrow> string \<Rightarrow> verdict" where
  "slot_verdict userAnswer keyAnswer =
     (if keyAnswer = [] then NoVerdict
      else if normalizeAnswer userAnswer = normalizeAnswer keyAnswer then Correct
      else Incorrect)"

section \<open>Answer key parser (MainWindow.cpp)\<close>

definition kNumQuestions :: int where
  "kNumQuestions = 40"

text \<open>
  The line pattern is \<open>^\s*(\d+(?:&\d+)*)\s+(.+)$\<close>, matched against a line that
  holds no line feed (the text was split at line feeds). \<open>match_numbers\<close> is the
  greedy match of the first group at the start of its argument: the captured token and
  what follows it. A shorter match of the group would end in front of a digit or of
  \<open>&\<close>, where \<open>\s+\<close> cannot match, so the greedy one decides the match.
\<close>

function match_numbers :: "string \<Rightarrow> (string \<times> string) option" where
  "match_numbers s =
     (let digits = takeWhile re_digit s; rest = dropWhile re_digit s
      in if digits = [] then None
         else (case rest of
                 [] \<Rightarrow> Some (digits, rest)
               | c # tail \<Rightarrow>
                   if c = CHR ''&''
                   then (case match_numbers tail of
                           None \<Rightarrow> Some (digits, rest)
                         | Some (token, rest') \<Rightarrow> Some (digits @ c # token, rest'))
                   else Some (digits, rest)))"
  by pat_completeness auto
termination
proof (relation "measure length")
  show "wf (measure length)" by simp
next
  fix s :: string and digits rest c tail
  assume "rest = dropWhile re_digit s" and "rest = c # tail"
  then have "length (c # tail) \<le> length s"
    using length_dropWhile_le [of re_digit s] by simp
  then show "(tail, s) \<in> measure length" by simp
qed

text \<open>
  The whole pattern: optional white space, the numbers token, white space, and the rest
  of the line, which must hold a character. \<open>\s+\<close> is greedy; when it reaches the end
  of the line it gives its last character back to \<open>.+\<close>, which needs one. The result
  is the pair of the two captured groups, or \<open>None\<close> when the line does not match.
\<close>

definition lineRe_match :: "string \<Rightarrow> (string \<times> string) option" where
  "lineRe_match line =
     (case match_numbers (dropWhile re_space line) of
        None \<Rightarrow> None
      | Some (numbersToken, rest) \<Rightarrow>
          let spaces = takeWhile re_space rest; answer = dropWhile re_space rest
          in if spaces = [] then None
             else if answer \<noteq> [] then Some (numbersToken, answer)
             else if length spaces \<ge> 2 then Some (numbersToken, [last spaces])
             else None)"

text \<open>
  The separator pattern of the answers is \<open>\s*,\s*\<close>. \<open>separator_at\<close> matches it
  at the start of its argument and returns what follows the match. \<open>split_separator\<close>
  is \<open>QString::split\<close> with that pattern: it walks the string, closes the current
  piece at the leftmost match and goes on behind it. \<open>Qt::SkipEmptyParts\<close> then drops
  the empty pieces.
\<close>

definition separator_at :: "string \<Rightarrow> string option" where
  "separator_at s =
     (case dropWhile re_space s of
        [] \<Rightarrow> None
      | c # tail \<Rightarrow> if c = CHR '','' then Some (dropWhile re_space tail) else None)"

function split_separator :: "string \<Rightarrow> string \<Rightarrow> string list" where
  "split_separator piece [] = [piece]"
| "split_separator piece (c # cs) =
     (case separator_at (c # cs) of
        Some rest \<Rightarrow> piece # split_separator [] rest
      | None \<Rightarrow> split_separator (piece @ [c]) cs)"
  by pat_completeness auto
termination
proof (relation "measure (\<lambda>(piece, s). length s)")
  show "wf (measure (\<lambda>(piece, s). length s))" by simp
next
  fix piece :: string and c cs rest
  assume "separator_at (c # cs) = Some rest"
  then obtain tail where m: "dropWhile re_space (c # cs) = CHR '','' # tail"
    and r: "rest = dropWhile re_space tail"
    by (auto simp: separator_at_def split: list.splits if_splits)
  have "length rest \<le> length tail"
    using r length_dropWhile_le [of re_space tail] by simp
  moreover have "length (CHR '','' # tail) \<le> length (c # cs)"
    using m length_dropWhile_le [of re_space "c # cs"] by simp
  ultimately show "(([], rest), (piece, c # cs)) \<in> measure (\<lambda>(piece, s). length s)"
    by simp
next
  fix piece :: string and c cs
  show "((piece @ [c], cs), (piece, c # cs)) \<in> measure (\<lambda>(piece, s). length s)"
    by simp
qed

definition split_SkipEmptyParts :: "string \<Rightarrow> string list" where
  "split_SkipEmptyParts s = filter (\<lambda>part. part \<noteq> []) (split_separator [] s)"

text \<open>
  The inner loop of \<open>parseAnswerText\<close> over \<open>i = 0 .. numberParts.size() - 1\<close>: a
  part that is no \<open>int\<close> or lies outside \<open>1 .. kNumQuestions\<close> is passed over; the
  others store the answer at position \<open>i\<close>, or the last answer when there is none at
  \<open>i\<close>, trimmed. \<open>QMap<int, QString>\<close> is a map from integers to strings.
\<close>

definition assign_step :: "string list \<Rightarrow> string list \<Rightarrow> nat \<Rightarrow> (int \<rightharpoonup> string) \<Rightarrow> (int \<rightharpoonup> string)" where
  "assign_step numberParts answerList i mapping =
     (case toInt (numberParts ! i) of
        None \<Rightarrow> mapping
      | Some qNum \<Rightarrow>
          if qNum < 1 \<or> qNum > kNumQuestions then mapping
          else mapping(qNum \<mapsto> trimmed (value_at answerList i (last answerList))))"

text \<open>The body of the outer loop: one raw line, and the mapping so far.\<close>

definition parse_line :: "string \<Rightarrow> (int \<rightharpoonup> string) \<Rightarrow> (int \<rightharpoonup> string)" where
  "parse_line rawLine mapping =
     (let line = trimmed rawLine
      in if line = [] then mapping
         else if startsWith_CaseInsensitive line ''part'' \<or>
                 startsWith_CaseInsensitive line ''passage'' \<or>
                 startsWith line ''('' then mapping
         else (case lineRe_match line of
                 None \<Rightarrow> mapping
               | Some (numbersToken, captured2) \<Rightarrow>
                   let answersToken = trimmed captured2
                   in if answersToken = [] then mapping
                      else
                        let numberParts = split_char CHR ''&'' numbersToken;
                            parts = split_SkipEmptyParts answersToken;
                            answerList = (if parts = [] then [answersToken] else parts)
                        in fold (assign_step numberParts answerList)
                             [0..<length numberParts] mapping))"

definition parseAnswerText :: "string \<Rightarrow> (int \<rightharpoonup> string)" where
  "parseAnswerText text = fold parse_line (split_char CHR 0x0A text) Map.empty"

text \<open>
  \<open>QStringList::join(QChar)\<close>: the pieces with the separator between them. It is the
  text whose lines, or whose numbers between \<open>&\<close>, are the given pieces.
\<close>

fun join_char :: "char \<Rightarrow> string list \<Rightarrow> string" where
  "join_char sep [] = []"
| "join_char sep [p] = p"
| "join_char sep (p # q # ps) = p @ sep # join_char sep (q # ps)"

text \<open>
  The lines the specification says are skipped: the empty ones, the headers (a line that
  begins with \<open>part\<close> or \<open>passage\<close> in any letter case, or with an opening parenthesis)
  and the ones the line pattern does not match, all after trimming.
\<close>

definition header_line :: "string \<Rightarrow> bool" where
  "header_line line =
     (startsWith_CaseInsensitive line ''part'' \<or> startsWith_CaseInsensitive line ''passage'' \<or>
      startsWith line ''('')"

definition skipped_line :: "string \<Rightarrow> bool" where
  "skipped_line rawLine =
     (let line = trimmed rawLine
      in line = [] \<or> header_line line \<or> lineRe_match line = None)"

text \<open>
  The words of the specification about one line of the form numbers, white space,
  answers. The numbers are non-empty runs of digits, joined by \<open>&\<close>; the white space
  is a non-empty run of \<open>\s\<close> characters other than the line feed; the answer segment
  is the rest of the line, which begins and ends with a character that is no white
  space and holds no line feed.
\<close>

definition number_tokens :: "string list \<Rightarrow> bool" where
  "number_tokens ds = (ds \<noteq> [] \<and> list_all (\<lambda>d. d \<noteq> [] \<and> list_all re_digit d) ds)"

definition line_space :: "string \<Rightarrow> bool" where
  "line_space ws = (ws \<noteq> [] \<and> list_all (\<lambda>c. re_space c \<and> c \<noteq> CHR 0x0A) ws)"

definition answer_segment :: "string \<Rightarrow> bool" where
  "answer_segment seg =
     (seg \<noteq> [] \<and> \<not> isSpace (hd seg) \<and> \<not> isSpace (last seg) \<and> CHR 0x0A \<notin> set seg)"

text \<open>
  The answers of a segment in the words of the specification: the segment is split at
  its commas, the white space around each piece is dropped and the empty pieces are left
  out; when nothing remains, the whole segment is the single answer.
\<close>

definition strip_re_space :: "string \<Rightarrow> string" where
  "strip_re_space s = rev (dropWhile re_space (rev (dropWhile re_space s)))"

definition comma_parts :: "string \<Rightarrow> string list" where
  "comma_parts segment =
     (let parts = filter (\<lambda>p. p \<noteq> []) (map strip_re_space (split_char CHR '','' segment))
      in if parts = [] then [segment] else parts)"

text \<open>
  The mapping of such a line in the words of the specification: a question number
  \<open>q\<close> between 1 and 40 that stands among the numbers gets the answer at the position of
  its last occurrence, or the last answer when the answers end before that position;
  every other number gets nothing.
\<close>

definition answer_for :: "string list \<Rightarrow> nat \<Rightarrow> string" where
  "answer_for parts i = trimmed (if i < length parts then parts ! i else last parts)"

definition line_result :: "string list \<Rightarrow> string list \<Rightarrow> int \<Rightarrow> string option" where
  "line_result numbers parts q =
     (let hits = filter (\<lambda>i. digits_value (numbers ! i) = q) [0..<length numbers]
      in if hits \<noteq> [] \<and> 1 \<le> q \<and> q \<le> 40 then Some (answer_for parts (last hits)) else None)"

text \<open>The list of answers the loop of \<open>parseAnswerText\<close> builds from the answers token.\<close>

definition answerList_of :: "string \<Rightarrow> string list" where
  "answerList_of answersToken =
     (let parts = split_SkipEmptyParts answersToken
      in if parts = [] then [answersToken] else parts)"

section \<open>Saving the answers (MainWindow.cpp)\<close>

text \<open>
  Of the main window the model keeps the index of the page shown (0 is the landing
  page, 1 the listening page, 2 the reading page) and the two panels. \<open>activePanel\<close>
  returns the panel of the page shown with its section name, or nothing on the landing
  page (the null pointer of the source).
\<close>

record MainWindow =
  currentIndex :: int
  listeningPanel :: SectionPanel
  readingPanel :: SectionPanel

definition activePanel :: "MainWindow \<Rightarrow> (string \<times> SectionPanel) option" where
  "activePanel window =
     (let idx = currentIndex window
      in if idx = 1 then Some (''Listening'', listeningPanel window)
         else if idx = 2 then Some (''Reading'', readingPanel window)
         else None)"

text \<open>
  What \<open>saveAnswers\<close> writes to the stream: the section name and a line feed, then for
  every index \<open>i\<close> of the answers the number \<open>i + 1\<close>, a comma, the answer and a
  line feed.
\<close>

definition save_text :: "string \<Rightarrow> string list \<Rightarrow> string" where
  "save_text name answerList =
     name @ [CHR 0x0A] @
     concat (map (\<lambda>i. decimal (i + 1) @ '','' @ answerList ! i @ [CHR 0x0A])
               [0..<length answerList])"

text \<open>
  The whole slot, with what the user interface supplies as arguments: the path the save
  dialog returns (empty when the dialog is cancelled) and whether the file could be
  opened. It writes nothing when there is no active panel, no path or no file.
\<close>

datatype save_outcome =
  SelectSectionMessage | DialogCancelled | UnableToSaveMessage | Written string string

definition saveAnswers :: "MainWindow \<Rightarrow> string \<Rightarrow> bool \<Rightarrow> save_outcome" where
  "saveAnswers window filePath opened =
     (case activePanel window of
        None \<Rightarrow> SelectSectionMessage
      | Some (name, panel) \<Rightarrow>
          if filePath = [] then DialogCancelled
          else if \<not> opened then UnableToSaveMessage
          else Written filePath (save_text name (answers panel)))"

text \<open>
  Modelled from the spec: the reader of a saved file, which the repository does not have.
  The specification gives the format (line 1 is the section name, every further line
  is \<open><questionNumber>,<answerText>\<close>), speaks of reconstructing the mapping from the
  \<open><n>,<answer>\<close> lines, and says that a comma inside an answer corrupts the format on
  re-read. So a line is read as two fields separated by one comma, a number and an
  answer; any other line gives no entry. The reader starts behind the first line.
\<close>

definition reconstruct_line :: "string \<Rightarrow> (int \<times> string) option" where
  "reconstruct_line line =
     (case split_char CHR '','' line of
        [number, answer] \<Rightarrow>
          if number \<noteq> [] \<and> list_all re_digit number
          then Some (digits_value number, answer) else None
      | _ \<Rightarrow> None)"

definition reconstruct :: "string \<Rightarrow> (int \<rightharpoonup> string)" where
  "reconstruct content =
     fold (\<lambda>line mapping.
             case reconstruct_line line of
               None \<Rightarrow> mapping
             | Some (n, answer) \<Rightarrow> mapping(n \<mapsto> answer))
          (tl (split_char CHR 0x0A content)) Map.empty"

text \<open>
  Modelled from the spec: the ordered answer sequence a mapping stands for, for a form
  of \<open>count\<close> questions: the entries of the question numbers 1 to \<open>count\<close>, in that
  order.
\<close>

definition answer_sequence :: "(int \<rightharpoonup> string) \<Rightarrow> nat \<Rightarrow> string option list" where
  "answer_sequence mapping n = map (\<lambda>i. mapping (int i + 1)) [0..<n]"

section \<open>Band score lookup (MainWindow.cpp)\<close>

text \<open>
  The two band tables are lists of pairs \<open>(minCorrect, band)\<close>, in the order of the
  source. The bands are C++ doubles; every constant of the tables is a multiple of one
  half between 2 and 9, which a double holds exactly, and the code only stores, returns
  and compares them, so they are modelled as reals. The raw score is a C++ \<open>int\<close>; it is
  only compared, so it is modelled as an integer.
\<close>

type_synonym band_table = "(int \<times> real) list"

definition listeningBandTable :: band_table where
  "listeningBandTable =
     [(39, 9.0), (37, 8.5), (35, 8.0), (32, 7.5), (30, 7.0),
      (26, 6.5), (23, 6.0), (18, 5.5), (16, 5.0), (13, 4.5),
      (11, 4.0), (8, 3.5), (6, 3.0), (4, 2.5), (0, 2.0)]"

definition readingBandTable :: band_table where
  "readingBandTable =
     [(39, 9.0), (37, 8.5), (35, 8.0), (33, 7.5), (30, 7.0),
      (27, 6.5), (23, 6.0), (19, 5.5), (15, 5.0), (13, 4.5),
      (10, 4.0), (8, 3.5), (6, 3.0), (4, 2.5), (0, 2.0)]"

text \<open>
  The loop of \<open>MainWindow::lookupBand\<close>: the first pair with \<open>correct >= pair.first\<close>
  returns its band, and the fall-through returns \<open>0.0\<close>.
\<close>

fun scan_table :: "band_table \<Rightarrow> int \<Rightarrow> real" where
  "scan_table [] correct = 0.0"
| "scan_table (pair # rest) correct =
     (if correct \<ge> fst pair then snd pair else scan_table rest correct)"

text \<open>
  The section is a string: \<open>"Listening"\<close> selects the listening table, every other
  name the reading table.
\<close>

definition lookupBand :: "string \<Rightarrow> int \<Rightarrow> real" where
  "lookupBand sectionName correct =
     scan_table (if sectionName = ''Listening'' then listeningBandTable
                 else readingBandTable) correct"

text \<open>
  The words of the specification, for comparison: the tables are ordered descending by
  \<open>minCorrect\<close>, and the result is the band of the first entry, in that order, whose
  \<open>minCorrect\<close> is at most the raw score.
\<close>

definition descending_minCorrect :: "band_table \<Rightarrow> bool" where
  "descending_minCorrect table = sorted_wrt (\<lambda>a b. a > b) (map fst table)"

definition first_entry_at_most :: "band_table \<Rightarrow> int \<Rightarrow> (int \<times> real) option" where
  "first_entry_at_most table correct = find (\<lambda>entry. fst entry \<le> correct) table"

definition non_increasing_bands :: "band_table \<Rightarrow> bool" where
  "non_increasing_bands table = sorted_wrt (\<lambda>a b. a \<ge> b) (map snd table)"

section \<open>Properties of the band score lookup\<close>

lemma scan_table_find:
  "scan_table table correct =
     (case find (\<lambda>entry. fst entry \<le> correct) table of
        None \<Rightarrow> 0 | Some entry \<Rightarrow> snd entry)"
  by (induction table) auto

lemma find_descending_greatest:
  "sorted_wrt (\<lambda>a b. a > b) (map fst (table :: band_table)) \<Longrightarrow>
   find (\<lambda>entry. fst entry \<le> correct) table = Some entry \<Longrightarrow>
   entry' \<in> set table \<Longrightarrow> fst entry' \<le> correct \<Longrightarrow> fst entry' \<le> fst entry"
proof (induction table)
  case Nil
  then show ?case by simp
next
  case (Cons e table)
  show ?case
  proof (cases "fst e \<le> correct")
    case True
    with Cons.prems have "entry = e" by simp
    with Cons.prems show ?thesis by (auto intro: less_imp_le)
  next
    case False
    with Cons.prems have "find (\<lambda>entry. fst entry \<le> correct) table = Some entry"
      and "entry' \<in> set table" by auto
    with Cons show ?thesis by simp
  qed
qed

lemma find_floor_entry:
  "(0, b) \<in> set (table :: band_table) \<Longrightarrow> 0 \<le> correct \<Longrightarrow>
   \<exists>entry. find (\<lambda>entry. fst entry \<le> correct) table = Some entry"
  by (cases "find (\<lambda>entry. fst entry \<le> correct) table") (auto simp: find_None_iff)

lemma scan_table_nonneg:
  "\<forall>e \<in> set table. 0 \<le> snd e \<Longrightarrow> 0 \<le> scan_table table correct"
  by (induction table) auto

lemma scan_table_le_head:
  "sorted_wrt (\<lambda>a b. a \<ge> b) (map snd (e # table)) \<Longrightarrow> \<forall>x \<in> set (e # table). 0 \<le> snd x \<Longrightarrow>
   scan_table (e # table) correct \<le> snd e"
proof (induction table arbitrary: e)
  case Nil
  then show ?case by simp
next
  case (Cons a table)
  then have "scan_table (a # table) correct \<le> snd a" by simp
  moreover from Cons.prems have "snd a \<le> snd e" by simp
  ultimately show ?case by simp
qed

lemma scan_table_mono:
  "sorted_wrt (\<lambda>a b. a \<ge> b) (map snd table) \<Longrightarrow> \<forall>e \<in> set table. 0 \<le> snd e \<Longrightarrow>
   c1 \<le> c2 \<Longrightarrow> scan_table table c1 \<le> scan_table table c2"
proof (induction table)
  case Nil
  then show ?case by simp
next
  case (Cons e table)
  from Cons have IH: "scan_table table c1 \<le> scan_table table c2" by simp
  show ?case
  proof (cases "fst e \<le> c1")
    case True
    with Cons.prems show ?thesis by simp
  next
    case c1: False
    show ?thesis
    proof (cases "fst e \<le> c2")
      case True
      have "scan_table table c1 \<le> snd e"
      proof (cases table)
        case Nil
        with Cons.prems show ?thesis by simp
      next
        case (Cons a rest)
        with Cons.prems \<open>sorted_wrt _ _\<close> \<open>\<forall>e\<in>set (e # table). 0 \<le> snd e\<close>
        have "scan_table (a # rest) c1 \<le> snd a" and "snd a \<le> snd e"
          using scan_table_le_head [of a rest c1] by auto
        with Cons show ?thesis by simp
      qed
      with c1 True show ?thesis by simp
    next
      case False
      with c1 IH show ?thesis by simp
    qed
  qed
qed

lemma scan_table_negative:
  "\<forall>e \<in> set table. 0 \<le> fst e \<Longrightarrow> correct < 0 \<Longrightarrow> scan_table table correct = 0"
  by (induction table) auto

lemma listening_descending: "descending_minCorrect listeningBandTable"
  by (simp add: descending_minCorrect_def listeningBandTable_def)

lemma reading_descending: "descending_minCorrect readingBandTable"
  by (simp add: descending_minCorrect_def readingBandTable_def)

lemma listening_bands: "non_increasing_bands listeningBandTable"
  "\<forall>e \<in> set listeningBandTable. 0 \<le> snd e" "\<forall>e \<in> set listeningBandTable. 0 \<le> fst e"
  by (simp_all add: non_increasing_bands_def listeningBandTable_def)

lemma reading_bands: "non_increasing_bands readingBandTable"
  "\<forall>e \<in> set readingBandTable. 0 \<le> snd e" "\<forall>e \<in> set readingBandTable. 0 \<le> fst e"
  by (simp_all add: non_increasing_bands_def readingBandTable_def)

lemma first_entry_greatest:
  assumes "descending_minCorrect table" and "(0, b) \<in> set table" and "0 \<le> correct"
  shows "\<exists>entry. first_entry_at_most table correct = Some entry \<and>
           scan_table table correct = snd entry \<and> fst entry \<le> correct \<and>
           (\<forall>e \<in> set table. fst e \<le> correct \<longrightarrow> fst e \<le> fst entry)"
proof -
  from find_floor_entry [OF assms(2,3)] obtain entry
    where f: "find (\<lambda>entry. fst entry \<le> correct) table = Some entry" ..
  then have "scan_table table correct = snd entry"
    by (simp add: scan_table_find)
  moreover from f have "fst entry \<le> correct"
    by (auto simp: find_Some_iff)
  moreover have "\<forall>e \<in> set table. fst e \<le> correct \<longrightarrow> fst e \<le> fst entry"
    using find_descending_greatest [OF _ f] assms(1)
    by (auto simp: descending_minCorrect_def)
  ultimately show ?thesis using f by (simp add: first_entry_at_most_def)
qed

text \<open>
  Claim C2. For the sections Listening and Reading and every raw score that is not
  negative, \<open>lookupBand\<close> returns the band of the first entry of the section's
  table, scanned in its order of descending \<open>minCorrect\<close>, whose \<open>minCorrect\<close> is at
  most the score; that entry has the greatest \<open>minCorrect\<close> at most the score. A score of
  0 gives band 2.0 in both sections, 39 gives 9.0 for Listening and 33 gives 7.5 for
  Reading, and the tables hold the constants of the specification.
\<close>

theorem lookupBand_first_entry:
  "(0 \<le> correct \<longrightarrow>
      (\<exists>entry. first_entry_at_most listeningBandTable correct = Some entry \<and>
         lookupBand ''Listening'' correct = snd entry \<and> fst entry \<le> correct \<and>
         (\<forall>e \<in> set listeningBandTable. fst e \<le> correct \<longrightarrow> fst e \<le> fst entry)) \<and>
      (\<exists>entry. first_entry_at_most readingBandTable correct = Some entry \<and>
         lookupBand ''Reading'' correct = snd entry \<and> fst entry \<le> correct \<and>
         (\<forall>e \<in> set readingBandTable. fst e \<le> correct \<longrightarrow> fst e \<le> fst entry))) \<and>
   descending_minCorrect listeningBandTable \<and> descending_minCorrect readingBandTable \<and>
   lookupBand ''Listening'' 0 = 2.0 \<and> lookupBand ''Reading'' 0 = 2.0 \<and>
   lookupBand ''Listening'' 39 = 9.0 \<and> lookupBand ''Reading'' 33 = 7.5 \<and>
   listeningBandTable =
     [(39, 9.0), (37, 8.5), (35, 8.0), (32, 7.5), (30, 7.0),
      (26, 6.5), (23, 6.0), (18, 5.5), (16, 5.0), (13, 4.5),
      (11, 4.0), (8, 3.5), (6, 3.0), (4, 2.5), (0, 2.0)] \<and>
   readingBandTable =
     [(39, 9.0), (37, 8.5), (35, 8.0), (33, 7.5), (30, 7.0),
      (27, 6.5), (23, 6.0), (19, 5.5), (15, 5.0), (13, 4.5),
      (10, 4.0), (8, 3.5), (6, 3.0), (4, 2.5), (0, 2.0)]"
proof -
  have l0: "(0, 2.0) \<in> set listeningBandTable" by (simp add: listeningBandTable_def)
  have r0: "(0, 2.0) \<in> set readingBandTable" by (simp add: readingBandTable_def)
  have general: "0 \<le> correct \<longrightarrow>
      (\<exists>entry. first_entry_at_most listeningBandTable correct = Some entry \<and>
         lookupBand ''Listening'' correct = snd entry \<and> fst entry \<le> correct \<and>
         (\<forall>e \<in> set listeningBandTable. fst e \<le> correct \<longrightarrow> fst e \<le> fst entry)) \<and>
      (\<exists>entry. first_entry_at_most readingBandTable correct = Some entry \<and>
         lookupBand ''Reading'' correct = snd entry \<and> fst entry \<le> correct \<and>
         (\<forall>e \<in> set readingBandTable. fst e \<le> correct \<longrightarrow> fst e \<le> fst entry))"
    using first_entry_greatest [OF listening_descending l0, of correct]
      first_entry_greatest [OF reading_descending r0, of correct]
    by (simp add: lookupBand_def)
  have vals: "lookupBand ''Listening'' 0 = 2.0" "lookupBand ''Reading'' 0 = 2.0"
    "lookupBand ''Listening'' 39 = 9.0" "lookupBand ''Reading'' 33 = 7.5"
    by (simp_all add: lookupBand_def listeningBandTable_def readingBandTable_def)
  show ?thesis
    using general vals listening_descending reading_descending
    by (simp only: listeningBandTable_def [symmetric] readingBandTable_def [symmetric] simp_thms)
qed

theorem lookupBand_first_entry_witness:
  "first_entry_at_most listeningBandTable 25 = Some (23, 6.0) \<and>
   lookupBand ''Listening'' 25 = 6.0 \<and>
   first_entry_at_most readingBandTable 25 = Some (23, 6.0) \<and>
   lookupBand ''Reading'' 25 = 6.0"
  using lookupBand_first_entry [of 25]
  by (simp add: first_entry_at_most_def listeningBandTable_def readingBandTable_def)

text \<open>
  Claim C3. For a fixed section, \<open>lookupBand\<close> is monotonic: of two raw scores that
  are not negative, the greater never gets the smaller band.
\<close>

theorem lookupBand_monotonic:
  "0 \<le> correctCount1 \<Longrightarrow> correctCount1 \<le> correctCount2 \<Longrightarrow>
   lookupBand sectionName correctCount1 \<le> lookupBand sectionName correctCount2"
  using scan_table_mono [of listeningBandTable correctCount1 correctCount2]
    scan_table_mono [of readingBandTable correctCount1 correctCount2]
    listening_bands reading_bands
  by (simp add: lookupBand_def non_increasing_bands_def del: scan_table.simps)

theorem lookupBand_monotonic_witness:
  "(0::int) \<le> 25 \<and> (25::int) \<le> 26 \<and> lookupBand ''Listening'' 25 = 6.0 \<and>
   lookupBand ''Listening'' 26 = 6.5 \<and>
   lookupBand ''Listening'' 25 \<le> lookupBand ''Listening'' 26"
  using lookupBand_monotonic [of 25 26 "''Listening''"]
  by (simp add: lookupBand_def listeningBandTable_def)

text \<open>
  Claim C10. \<open>lookupBand\<close> is total outside its documented precondition as well: for
  every section name and every negative raw score no entry matches, and the result is
  the fall-through value 0.0.
\<close>

theorem lookupBand_negative:
  "correct < 0 \<Longrightarrow> lookupBand sectionName correct = 0.0"
  using scan_table_negative [of listeningBandTable correct]
    scan_table_negative [of readingBandTable correct] listening_bands(3) reading_bands(3)
  by (simp add: lookupBand_def del: scan_table.simps)

theorem lookupBand_negative_witness:
  "(-1::int) < 0 \<and> lookupBand ''Listening'' (-1) = 0.0 \<and> lookupBand ''Essay'' (-40) = 0.0"
  using lookupBand_negative [of "-1" "''Listening''"] lookupBand_negative [of "-40" "''Essay''"]
  by simp

section \<open>Properties of the normalisation\<close>

lemma toLower_char_code:
  "(of_char (toLower_char c) :: nat) =
     (if (0x41 \<le> (of_char c :: nat) \<and> (of_char c :: nat) \<le> 0x5A) \<or>
         (0xC0 \<le> (of_char c :: nat) \<and> (of_char c :: nat) \<le> 0xDE \<and> (of_char c :: nat) \<noteq> 0xD7)
      then of_char c + 32 else of_char c)"
  by (simp add: toLower_char_def Let_def)

lemma re_space_toLower_char [simp]: "re_space (toLower_char c) = re_space c"
  by (simp add: re_space_def toLower_char_code Let_def)

lemma isSpace_toLower_char [simp]: "isSpace (toLower_char c) = isSpace c"
  by (simp add: isSpace_def toLower_char_code Let_def)

lemma hyphen_code: "(c = CHR ''-'') = ((of_char c :: nat) = 0x2D)"
proof -
  have "(of_char CHR ''-'' :: nat) = 0x2D" by simp
  then show ?thesis by (metis of_char_eq_iff)
qed

lemma hyphen_toLower_char [simp]: "(toLower_char c = CHR ''-'') = (c = CHR ''-'')"
  by (simp add: hyphen_code toLower_char_code)

lemma toLower_char_idem [simp]: "toLower_char (toLower_char c) = toLower_char c"
proof -
  have "(of_char (toLower_char (toLower_char c)) :: nat) = of_char (toLower_char c)"
    by (simp add: toLower_char_code)
  then show ?thesis by (simp only: of_char_eq_iff)
qed

lemma re_space_isSpace: "re_space c \<Longrightarrow> isSpace c"
  by (auto simp: re_space_def isSpace_def Let_def)

lemma filter_dropWhile_disjoint:
  "(\<And>c. P c \<Longrightarrow> \<not> Q c) \<Longrightarrow> filter P (dropWhile Q s) = filter P s"
  by (induction s) auto

lemma filter_trimmed:
  assumes "\<And>c. P c \<Longrightarrow> \<not> isSpace c"
  shows "filter P (trimmed s) = filter P s"
proof -
  have "filter P (trimmed s) = rev (filter P (dropWhile isSpace (rev (dropWhile isSpace s))))"
    by (simp add: trimmed_def rev_filter)
  also have "\<dots> = rev (filter P (rev (dropWhile isSpace s)))"
    using assms by (simp add: filter_dropWhile_disjoint)
  also have "\<dots> = filter P (dropWhile isSpace s)"
    by (simp add: rev_filter)
  also have "\<dots> = filter P s"
    using assms by (simp add: filter_dropWhile_disjoint)
  finally show ?thesis .
qed

lemma dropWhile_none: "\<forall>c \<in> set s. \<not> P c \<Longrightarrow> dropWhile P s = s"
  by (cases s) auto

lemma trimmed_no_space: "\<forall>c \<in> set s. \<not> isSpace c \<Longrightarrow> trimmed s = s"
  by (simp add: trimmed_def dropWhile_none)

lemma normalizeAnswer_filter:
  "normalizeAnswer s = toLower (filter (\<lambda>c. \<not> re_space c \<and> c \<noteq> CHR ''-'') (trimmed s))"
  by (simp add: normalizeAnswer_def toLower_def filter_map comp_def Let_def)

lemma normalizeAnswer_ascii:
  assumes "ascii_whitespace_only s"
  shows "normalizeAnswer s = strip_case_space_hyphen s"
proof -
  have "filter (\<lambda>c. \<not> re_space c \<and> c \<noteq> CHR ''-'') (trimmed s)
      = filter (\<lambda>c. \<not> isSpace c \<and> c \<noteq> CHR ''-'') (trimmed s)"
  proof (rule filter_cong [OF refl])
    fix c assume "c \<in> set (trimmed s)"
    then have "c \<in> set s"
      by (auto simp: trimmed_def dest!: set_dropWhileD)
    with assms have "isSpace c \<longrightarrow> re_space c"
      by (simp add: ascii_whitespace_only_def list_all_iff)
    then show "(\<not> re_space c \<and> c \<noteq> CHR ''-'') = (\<not> isSpace c \<and> c \<noteq> CHR ''-'')"
      using re_space_isSpace by blast
  qed
  also have "\<dots> = filter (\<lambda>c. \<not> isSpace c \<and> c \<noteq> CHR ''-'') s"
    by (rule filter_trimmed) simp
  finally show ?thesis
    by (simp add: normalizeAnswer_filter strip_case_space_hyphen_def)
qed

lemma strip_clean:
  "c \<in> set (strip_case_space_hyphen s) \<Longrightarrow> \<not> isSpace c \<and> c \<noteq> CHR ''-'' \<and> toLower_char c = c"
  by (auto simp: strip_case_space_hyphen_def toLower_def)

lemma normalizeAnswer_clean:
  "c \<in> set (normalizeAnswer s) \<Longrightarrow> \<not> re_space c \<and> c \<noteq> CHR ''-'' \<and> toLower_char c = c"
  by (auto simp: normalizeAnswer_filter toLower_def)

lemma normalizeAnswer_fixed:
  assumes "\<forall>c \<in> set s. \<not> isSpace c \<and> c \<noteq> CHR ''-'' \<and> toLower_char c = c"
  shows "normalizeAnswer s = s"
proof -
  from assms have "trimmed s = s" by (simp add: trimmed_no_space)
  moreover from assms have "filter (\<lambda>c. \<not> re_space c \<and> c \<noteq> CHR ''-'') s = s"
    using re_space_isSpace by (auto simp: filter_id_conv)
  moreover from assms have "toLower s = s"
    by (simp add: toLower_def map_idI)
  ultimately show ?thesis by (simp add: normalizeAnswer_filter)
qed

text \<open>
  Claim C4, as amended. The claim as written fails where a string holds white space
  outside ASCII: \<open>trimmed\<close> removes a no-break space at either end, but the pattern
  \<open>[\s\-]+\<close> does not match it. So a hyphen in front of a leading no-break space keeps
  that space in the result, and a no-break space between two letters stays.
\<close>

theorem normalizeAnswer_insensitive_counterexample:
  "differ_only_in_case_space_hyphen [CHR 0xA0, CHR ''a''] [CHR ''-'', CHR 0xA0, CHR ''a''] \<and>
   normalizeAnswer [CHR 0xA0, CHR ''a''] \<noteq> normalizeAnswer [CHR ''-'', CHR 0xA0, CHR ''a''] \<and>
   differ_only_in_case_space_hyphen [CHR ''a'', CHR 0xA0, CHR ''b''] ''ab'' \<and>
   normalizeAnswer [CHR ''a'', CHR 0xA0, CHR ''b''] \<noteq> normalizeAnswer ''ab''"
  by (simp add: differ_only_in_case_space_hyphen_def strip_case_space_hyphen_def
      normalizeAnswer_def trimmed_def isSpace_def re_space_def toLower_def toLower_char_def)

text \<open>
  Claim C4, amended: on strings whose white space is ASCII white space,
  \<open>normalizeAnswer\<close> puts the letters in lower case and removes all white space and all
  hyphens, so two such strings that differ only in letter case, white space and hyphens
  have the same result; and \<open>"New-York"\<close>, \<open>" new york "\<close> and \<open>"NEWYORK"\<close> all
  give \<open>"newyork"\<close>.
\<close>

theorem normalizeAnswer_insensitive:
  "(ascii_whitespace_only x \<and> ascii_whitespace_only y \<and> differ_only_in_case_space_hyphen x y
      \<longrightarrow> normalizeAnswer x = normalizeAnswer y) \<and>
   (ascii_whitespace_only x \<longrightarrow>
      normalizeAnswer x = toLower (filter (\<lambda>c. \<not> isSpace c \<and> c \<noteq> CHR ''-'') x)) \<and>
   normalizeAnswer ''New-York'' = normalizeAnswer '' new york '' \<and>
   normalizeAnswer '' new york '' = normalizeAnswer ''NEWYORK'' \<and>
   normalizeAnswer ''NEWYORK'' = ''newyork'' \<and>
   normalizeAnswer ''New - York'' = ''newyork''"
proof -
  have "normalizeAnswer x = normalizeAnswer y"
    if "ascii_whitespace_only x" "ascii_whitespace_only y" "differ_only_in_case_space_hyphen x y"
    using that by (simp add: normalizeAnswer_ascii differ_only_in_case_space_hyphen_def)
  moreover have "normalizeAnswer x = toLower (filter (\<lambda>c. \<not> isSpace c \<and> c \<noteq> CHR ''-'') x)"
    if "ascii_whitespace_only x"
    using that by (simp add: normalizeAnswer_ascii strip_case_space_hyphen_def)
  moreover have "normalizeAnswer ''New-York'' = ''newyork''"
    "normalizeAnswer '' new york '' = ''newyork''"
    "normalizeAnswer ''NEWYORK'' = ''newyork''"
    "normalizeAnswer ''New - York'' = ''newyork''"
    by (simp_all add: normalizeAnswer_def trimmed_def isSpace_def re_space_def toLower_def
        toLower_char_def char_of_def bit_Suc_0_iff)
  ultimately show ?thesis by simp
qed

theorem normalizeAnswer_insensitive_witness:
  "ascii_whitespace_only ''South-East  Asia'' \<and> ascii_whitespace_only '' southeast ASIA'' \<and>
   differ_only_in_case_space_hyphen ''South-East  Asia'' '' southeast ASIA'' \<and>
   normalizeAnswer ''South-East  Asia'' = normalizeAnswer '' southeast ASIA'' \<and>
   normalizeAnswer ''South-East  Asia'' = ''southeastasia''"
  using normalizeAnswer_insensitive [of "''South-East  Asia''" "'' southeast ASIA''"]
  by (simp add: ascii_whitespace_only_def differ_only_in_case_space_hyphen_def
      strip_case_space_hyphen_def normalizeAnswer_def trimmed_def isSpace_def re_space_def
      toLower_def toLower_char_def char_of_def bit_Suc_0_iff)

text \<open>
  Claim C5, as written, fails at the three characters hyphen, no-break space, \<open>a\<close>: the
  first pass removes the hyphen and leaves the no-break space in front, which the second
  pass trims.
\<close>

theorem normalizeAnswer_idempotent_counterexample:
  "normalizeAnswer [CHR ''-'', CHR 0xA0, CHR ''a''] = [CHR 0xA0, CHR ''a''] \<and>
   normalizeAnswer (normalizeAnswer [CHR ''-'', CHR 0xA0, CHR ''a'']) = ''a'' \<and>
   normalizeAnswer (normalizeAnswer [CHR ''-'', CHR 0xA0, CHR ''a''])
     \<noteq> normalizeAnswer [CHR ''-'', CHR 0xA0, CHR ''a'']"
  by (simp add: normalizeAnswer_def trimmed_def isSpace_def re_space_def toLower_def
      toLower_char_def)

text \<open>
  Claim C5, amended: \<open>normalizeAnswer\<close> is idempotent on every string whose white space
  is ASCII white space.
\<close>

theorem normalizeAnswer_idempotent:
  "ascii_whitespace_only x \<Longrightarrow> normalizeAnswer (normalizeAnswer x) = normalizeAnswer x"
proof -
  assume a: "ascii_whitespace_only x"
  show ?thesis
  proof (rule normalizeAnswer_fixed, rule ballI)
    fix c assume "c \<in> set (normalizeAnswer x)"
    then have "c \<in> set (strip_case_space_hyphen x)"
      using a by (simp add: normalizeAnswer_ascii)
    then show "\<not> isSpace c \<and> c \<noteq> CHR ''-'' \<and> toLower_char c = c"
      by (rule strip_clean)
  qed
qed

theorem normalizeAnswer_idempotent_witness:
  "ascii_whitespace_only '' New - York '' \<and> normalizeAnswer '' New - York '' = ''newyork'' \<and>
   normalizeAnswer (normalizeAnswer '' New - York '') = ''newyork''"
  using normalizeAnswer_idempotent [of "'' New - York ''"]
  by (simp add: ascii_whitespace_only_def normalizeAnswer_def trimmed_def isSpace_def
      re_space_def toLower_def toLower_char_def char_of_def bit_Suc_0_iff)

text \<open>
  In general a second pass changes the result exactly when the first result begins or
  ends with white space.
\<close>

lemma dropWhile_same_length: "length (dropWhile P s) = length s \<Longrightarrow> dropWhile P s = s"
proof (cases s)
  case Nil
  then show ?thesis by simp
next
  case (Cons a rest)
  assume len: "length (dropWhile P s) = length s"
  have "\<not> P a"
  proof
    assume "P a"
    with Cons have "length (dropWhile P s) \<le> length rest"
      by (simp add: length_dropWhile_le)
    with len Cons show False by simp
  qed
  with Cons show ?thesis by simp
qed

lemma trimmed_same_length: "length (trimmed s) = length s \<Longrightarrow> trimmed s = s"
proof -
  assume len: "length (trimmed s) = length s"
  have a: "length (trimmed s) \<le> length (dropWhile isSpace s)"
    using length_dropWhile_le [of isSpace "rev (dropWhile isSpace s)"] by (simp add: trimmed_def)
  have b: "length (dropWhile isSpace s) \<le> length s"
    by (rule length_dropWhile_le)
  from len a b have d1: "dropWhile isSpace s = s"
    by (intro dropWhile_same_length) simp
  with len have "length (dropWhile isSpace (rev s)) = length (rev s)"
    by (simp add: trimmed_def)
  then have "dropWhile isSpace (rev s) = rev s"
    by (rule dropWhile_same_length)
  with d1 show ?thesis by (simp add: trimmed_def)
qed

lemma normalizeAnswer_idempotent_iff:
  "normalizeAnswer (normalizeAnswer x) = normalizeAnswer x \<longleftrightarrow>
   trimmed (normalizeAnswer x) = normalizeAnswer x"
proof
  assume t: "trimmed (normalizeAnswer x) = normalizeAnswer x"
  have "filter (\<lambda>c. \<not> re_space c \<and> c \<noteq> CHR ''-'') (normalizeAnswer x) = normalizeAnswer x"
    using normalizeAnswer_clean [of _ x] by (auto simp: filter_id_conv)
  moreover have "toLower (normalizeAnswer x) = normalizeAnswer x"
    using normalizeAnswer_clean [of _ x] by (simp add: toLower_def map_idI)
  ultimately show "normalizeAnswer (normalizeAnswer x) = normalizeAnswer x"
    using t by (simp add: normalizeAnswer_filter [of "normalizeAnswer x"])
next
  assume i: "normalizeAnswer (normalizeAnswer x) = normalizeAnswer x"
  let ?y = "normalizeAnswer x"
  have "length (normalizeAnswer ?y) \<le> length (trimmed ?y)"
    by (simp add: normalizeAnswer_filter [of ?y] toLower_def)
  with i have "length ?y \<le> length (trimmed ?y)" by simp
  moreover have "length (trimmed ?y) \<le> length ?y"
    using length_dropWhile_le [of isSpace "rev (dropWhile isSpace ?y)"]
      length_dropWhile_le [of isSpace ?y] by (simp add: trimmed_def)
  ultimately have "length (trimmed ?y) = length ?y" by simp
  then show "trimmed ?y = ?y" by (rule trimmed_same_length)
qed

section \<open>Properties of the evaluation\<close>

lemma evaluate_step_unfold:
  "evaluate_step i (panel, correct, evaluated) =
     (panel\<lparr>statusLabels :=
         (statusLabels panel)[i := slot_verdict (fst (slot_at panel i)) (snd (slot_at panel i))]\<rparr>,
      correct + (if slot_verdict (fst (slot_at panel i)) (snd (slot_at panel i)) = Correct then 1 else 0),
      evaluated + (if snd (slot_at panel i) \<noteq> [] then 1 else 0))"
  by (simp add: evaluate_step_def slot_verdict_def slot_at_def Let_def)

lemma evaluate_loop:
  "fold evaluate_step [0..<n] (panel, correct, evaluated) =
     (panel\<lparr>statusLabels :=
         fold (\<lambda>i labels. labels[i := slot_verdict (fst (slot_at panel i)) (snd (slot_at panel i))])
           [0..<n] (statusLabels panel)\<rparr>,
      correct + int (length (filter (\<lambda>i. slot_verdict (fst (slot_at panel i)) (snd (slot_at panel i)) = Correct) [0..<n])),
      evaluated + int (length (filter (\<lambda>i. snd (slot_at panel i) \<noteq> []) [0..<n])))"
proof (induction n)
  case 0
  show ?case by simp
next
  case (Suc n)
  have same: "slot_at (panel\<lparr>statusLabels := labels\<rparr>) i = slot_at panel i" for labels i
    by (simp add: slot_at_def)
  show ?case
    by (simp add: Suc evaluate_step_unfold same)
qed

lemma fold_list_update:
  "n \<le> length labels \<Longrightarrow>
   fold (\<lambda>i labels. labels[i := f i]) [0..<n] labels = map f [0..<n] @ drop n labels"
proof (induction n)
  case 0
  show ?case by simp
next
  case (Suc n)
  then have n: "n < length labels" by simp
  have "(map f [0..<n] @ drop n labels)[n := f n] = map f [0..<n] @ (drop n labels)[0 := f n]"
    by (simp add: list_update_append)
  also have "(drop n labels)[0 := f n] = f n # drop (Suc n) labels"
    using n by (simp add: Cons_nth_drop_Suc [symmetric])
  finally show ?case using Suc by simp
qed

lemma slots_zip:
  "length (keyEdits panel) = length (userEdits panel) \<Longrightarrow>
   map (slot_at panel) [0..<length (userEdits panel)] = zip (answers panel) (answerKeys panel)"
  by (rule nth_equalityI) (simp_all add: slot_at_def answers_def answerKeys_def)

lemma count_slots:
  "length (filter (\<lambda>i. P (slot_at panel i)) [0..<n]) = length (filter P (map (slot_at panel) [0..<n]))"
  by (simp add: filter_map comp_def)

lemma evaluate_result:
  assumes "panel_inv panel"
  shows "evaluate panel =
     (panel\<lparr>statusLabels := map (\<lambda>(u, k). slot_verdict u k) (zip (answers panel) (answerKeys panel))\<rparr>,
      int (length (filter (\<lambda>(u, k). slot_verdict u k = Correct) (zip (answers panel) (answerKeys panel)))),
      int (length (filter (\<lambda>k. k \<noteq> []) (answerKeys panel))))"
proof -
  let ?n = "length (userEdits panel)"
  from assms have len: "length (keyEdits panel) = ?n" "length (statusLabels panel) = ?n"
    by (simp_all add: panel_inv_def)
  have labels: "fold (\<lambda>i labels. labels[i := slot_verdict (fst (slot_at panel i)) (snd (slot_at panel i))])
           [0..<?n] (statusLabels panel) = map (\<lambda>(u, k). slot_verdict u k) (zip (answers panel) (answerKeys panel))"
    using fold_list_update [of ?n "statusLabels panel" "\<lambda>i. slot_verdict (fst (slot_at panel i)) (snd (slot_at panel i))"]
      slots_zip [OF len(1)] len(2)
    by (simp add: case_prod_beta flip: map_map [of "\<lambda>p. slot_verdict (fst p) (snd p)" "slot_at panel", unfolded comp_def])
  have correct: "length (filter (\<lambda>i. slot_verdict (fst (slot_at panel i)) (snd (slot_at panel i)) = Correct) [0..<?n])
     = length (filter (\<lambda>(u, k). slot_verdict u k = Correct) (zip (answers panel) (answerKeys panel)))"
    using count_slots [of "\<lambda>(u, k). slot_verdict u k = Correct" panel ?n] slots_zip [OF len(1)]
    by (simp add: case_prod_beta)
  have keys: "map snd (zip (answers panel) (answerKeys panel)) = answerKeys panel"
    using len(1) by (simp add: answers_def answerKeys_def)
  have "length (filter (\<lambda>i. snd (slot_at panel i) \<noteq> []) [0..<?n])
     = length (filter (\<lambda>p. snd p \<noteq> []) (zip (answers panel) (answerKeys panel)))"
    using count_slots [of "\<lambda>p. snd p \<noteq> []" panel ?n] slots_zip [OF len(1)] by simp
  also have "\<dots> = length (filter (\<lambda>k. k \<noteq> []) (map snd (zip (answers panel) (answerKeys panel))))"
    by (simp add: filter_map comp_def)
  finally have evaluated: "length (filter (\<lambda>i. snd (slot_at panel i) \<noteq> []) [0..<?n])
     = length (filter (\<lambda>k. k \<noteq> []) (answerKeys panel))"
    by (simp only: keys)
  show ?thesis
    by (simp add: evaluate_def evaluate_loop labels correct evaluated)
qed

lemma evaluate_panel:
  "fst (evaluate panel) =
     panel\<lparr>statusLabels :=
        fold (\<lambda>i labels. labels[i := slot_verdict (fst (slot_at panel i)) (snd (slot_at panel i))])
          [0..<length (userEdits panel)] (statusLabels panel)\<rparr>"
  by (simp add: evaluate_def evaluate_loop Let_def)

lemma length_fold_list_update:
  "length (fold (\<lambda>i labels. labels[i := f i]) is labels) = length labels"
  by (induction "is" arbitrary: labels) simp_all

text \<open>
  Claim C1. For every panel whose three vectors have one entry per question,
  \<open>evaluate\<close> returns the pair \<open>(correctCount, evaluatedCount)\<close> where
  \<open>evaluatedCount\<close> is the number of slots whose key is not empty and \<open>correctCount\<close>
  is the number of those slots whose normalised answer equals the normalised key; so
  \<open>correctCount \<le> evaluatedCount \<le> questionCount\<close>.
\<close>

theorem evaluate_counts:
  "panel_inv panel \<Longrightarrow>
   snd (evaluate panel) =
     (int (length (filter (\<lambda>(userAnswer, keyAnswer).
                      keyAnswer \<noteq> [] \<and> normalizeAnswer userAnswer = normalizeAnswer keyAnswer)
                   (zip (answers panel) (answerKeys panel)))),
      int (length (filter (\<lambda>keyAnswer. keyAnswer \<noteq> []) (answerKeys panel)))) \<and>
   fst (snd (evaluate panel)) \<le> snd (snd (evaluate panel)) \<and>
   snd (snd (evaluate panel)) \<le> questionCount panel"
proof -
  assume inv: "panel_inv panel"
  let ?slots = "zip (answers panel) (answerKeys panel)"
  have same: "(\<lambda>(u, k). slot_verdict u k = Correct) =
      (\<lambda>(userAnswer, keyAnswer). keyAnswer \<noteq> [] \<and> normalizeAnswer userAnswer = normalizeAnswer keyAnswer)"
    by (auto simp: slot_verdict_def fun_eq_iff)
  have tally: "snd (evaluate panel) =
     (int (length (filter (\<lambda>(userAnswer, keyAnswer).
                      keyAnswer \<noteq> [] \<and> normalizeAnswer userAnswer = normalizeAnswer keyAnswer) ?slots)),
      int (length (filter (\<lambda>keyAnswer. keyAnswer \<noteq> []) (answerKeys panel))))"
    by (simp add: evaluate_result [OF inv] same)
  have keys: "map snd ?slots = answerKeys panel"
    using inv by (simp add: panel_inv_def answers_def answerKeys_def)
  have "length (filter (\<lambda>(userAnswer, keyAnswer).
                      keyAnswer \<noteq> [] \<and> normalizeAnswer userAnswer = normalizeAnswer keyAnswer) ?slots)
        \<le> length (filter (\<lambda>p. snd p \<noteq> []) ?slots)"
  proof -
    have "filter (\<lambda>(userAnswer, keyAnswer).
                      keyAnswer \<noteq> [] \<and> normalizeAnswer userAnswer = normalizeAnswer keyAnswer) ?slots
        = filter (\<lambda>(userAnswer, keyAnswer). normalizeAnswer userAnswer = normalizeAnswer keyAnswer)
            (filter (\<lambda>p. snd p \<noteq> []) ?slots)"
      by (simp add: case_prod_unfold conj_commute)
    then show ?thesis by (simp only: length_filter_le)
  qed
  also have "length (filter (\<lambda>p. snd p \<noteq> []) ?slots)
       = length (filter (\<lambda>keyAnswer. keyAnswer \<noteq> []) (map snd ?slots))"
    by (simp add: filter_map comp_def)
  finally have le: "fst (snd (evaluate panel)) \<le> snd (snd (evaluate panel))"
    by (simp add: tally keys)
  have "length (filter (\<lambda>keyAnswer. keyAnswer \<noteq> []) (answerKeys panel)) \<le> length (answerKeys panel)"
    by (rule length_filter_le)
  also have "\<dots> = length (userEdits panel)"
    using inv by (simp add: panel_inv_def answerKeys_def)
  finally have total: "snd (snd (evaluate panel)) \<le> questionCount panel"
    by (simp add: tally questionCount_def)
  from tally le total show ?thesis by (intro conjI)
qed

theorem evaluate_counts_witness:
  "panel_inv \<lparr>panelSectionName = ''Listening'', panelGroups = [],
      userEdits = ['' New-York'', ''x'', [], ''no''], keyEdits = [''new york'', '' '', ''y'', []],
      statusLabels = [NoVerdict, Correct, Correct, Incorrect]\<rparr> \<and>
   snd (evaluate \<lparr>panelSectionName = ''Listening'', panelGroups = [],
      userEdits = ['' New-York'', ''x'', [], ''no''], keyEdits = [''new york'', '' '', ''y'', []],
      statusLabels = [NoVerdict, Correct, Correct, Incorrect]\<rparr>) = (1, 2)"
  using evaluate_counts [of "\<lparr>panelSectionName = ''Listening'', panelGroups = [],
      userEdits = ['' New-York'', ''x'', [], ''no''], keyEdits = [''new york'', '' '', ''y'', []],
      statusLabels = [NoVerdict, Correct, Correct, Incorrect]\<rparr>"]
  by (simp add: panel_inv_def answers_def answerKeys_def trimmed_def isSpace_def
      normalizeAnswer_def toLower_def toLower_char_def re_space_def char_of_def bit_Suc_0_iff)

text \<open>
  Claim C9. \<open>evaluate\<close> changes neither the answers nor the keys: the panel it leaves
  is the panel it got with other status labels, as many as before; and when the vectors
  have one entry per question, each label is the verdict of its slot.
\<close>

theorem evaluate_frame:
  "userEdits (fst (evaluate panel)) = userEdits panel \<and>
   keyEdits (fst (evaluate panel)) = keyEdits panel \<and>
   answers (fst (evaluate panel)) = answers panel \<and>
   answerKeys (fst (evaluate panel)) = answerKeys panel \<and>
   fst (evaluate panel) = panel\<lparr>statusLabels := statusLabels (fst (evaluate panel))\<rparr> \<and>
   length (statusLabels (fst (evaluate panel))) = length (statusLabels panel) \<and>
   (panel_inv panel \<longrightarrow>
      statusLabels (fst (evaluate panel)) =
        map (\<lambda>(userAnswer, keyAnswer). slot_verdict userAnswer keyAnswer)
          (zip (answers panel) (answerKeys panel)))"
  by (simp add: evaluate_panel answers_def answerKeys_def length_fold_list_update
      evaluate_result [unfolded answers_def answerKeys_def])

theorem evaluate_frame_witness:
  "panel_inv \<lparr>panelSectionName = ''Reading'', panelGroups = [],
      userEdits = [''a b'', ''x'', []], keyEdits = [''A-B'', ''y'', '' ''],
      statusLabels = [NoVerdict, NoVerdict, Correct]\<rparr> \<and>
   userEdits (fst (evaluate \<lparr>panelSectionName = ''Reading'', panelGroups = [],
      userEdits = [''a b'', ''x'', []], keyEdits = [''A-B'', ''y'', '' ''],
      statusLabels = [NoVerdict, NoVerdict, Correct]\<rparr>)) = [''a b'', ''x'', []] \<and>
   keyEdits (fst (evaluate \<lparr>panelSectionName = ''Reading'', panelGroups = [],
      userEdits = [''a b'', ''x'', []], keyEdits = [''A-B'', ''y'', '' ''],
      statusLabels = [NoVerdict, NoVerdict, Correct]\<rparr>)) = [''A-B'', ''y'', '' ''] \<and>
   statusLabels (fst (evaluate \<lparr>panelSectionName = ''Reading'', panelGroups = [],
      userEdits = [''a b'', ''x'', []], keyEdits = [''A-B'', ''y'', '' ''],
      statusLabels = [NoVerdict, NoVerdict, Correct]\<rparr>)) = [Correct, Incorrect, NoVerdict]"
  using evaluate_frame [of "\<lparr>panelSectionName = ''Reading'', panelGroups = [],
      userEdits = [''a b'', ''x'', []], keyEdits = [''A-B'', ''y'', '' ''],
      statusLabels = [NoVerdict, NoVerdict, Correct]\<rparr>"]
  by (simp add: panel_inv_def answers_def answerKeys_def trimmed_def isSpace_def slot_verdict_def
      normalizeAnswer_def toLower_def toLower_char_def re_space_def char_of_def bit_Suc_0_iff)

lemma buildGrid_inv: "panel_inv (buildGrid name gs)"
  by (simp add: buildGrid_def panel_inv_def Let_def)

section \<open>Properties of the parser\<close>

lemma split_char_nonempty [simp]: "split_char sep s \<noteq> []"
  by (induction s) (auto simp: Let_def)

lemma split_char_append:
  "split_char sep (a @ sep # b) = split_char sep a @ split_char sep b"
proof (induction a)
  case Nil
  show ?case by simp
next
  case (Cons c a)
  show ?case
  proof (cases "c = sep")
    case True
    with Cons show ?thesis by simp
  next
    case False
    have "hd (split_char sep a @ split_char sep b) = hd (split_char sep a)"
      by simp
    moreover have "tl (split_char sep a @ split_char sep b) = tl (split_char sep a) @ split_char sep b"
      by simp
    ultimately show ?thesis using Cons False by (simp add: Let_def)
  qed
qed

lemma split_char_no_sep: "sep \<notin> set s \<Longrightarrow> split_char sep s = [s]"
  by (induction s) (auto simp: Let_def)

lemma split_char_join:
  "ps \<noteq> [] \<Longrightarrow> \<forall>p \<in> set ps. sep \<notin> set p \<Longrightarrow> split_char sep (join_char sep ps) = ps"
proof (induction sep ps rule: join_char.induct)
  case (1 sep)
  then show ?case by simp
next
  case (2 sep p)
  then show ?case by (simp add: split_char_no_sep)
next
  case (3 sep p q ps)
  then show ?case by (simp add: split_char_append split_char_no_sep)
qed

lemma assign_step_add:
  "assign_step numberParts answerList i mapping =
     mapping ++ assign_step numberParts answerList i Map.empty"
  by (auto simp: assign_step_def split: option.splits)

lemma fold_add:
  assumes "\<And>x m. f x m = m ++ f x Map.empty"
  shows "fold f xs m = m ++ fold f xs Map.empty"
proof (induction xs arbitrary: m)
  case Nil
  show ?case by simp
next
  case (Cons x xs)
  have "fold f (x # xs) m = fold f xs (f x m)" by simp
  also have "\<dots> = f x m ++ fold f xs Map.empty" by (rule Cons)
  also have "\<dots> = (m ++ f x Map.empty) ++ fold f xs Map.empty"
    using assms [of x m] by simp
  also have "\<dots> = m ++ (f x Map.empty ++ fold f xs Map.empty)" by simp
  also have "f x Map.empty ++ fold f xs Map.empty = fold f xs (f x Map.empty)"
    using Cons [of "f x Map.empty"] by simp
  finally show ?case by simp
qed

lemma parse_line_add: "parse_line rawLine mapping = mapping ++ parse_line rawLine Map.empty"
proof -
  have loop: "fold (assign_step ns as) is mapping = mapping ++ fold (assign_step ns as) is Map.empty"
    for ns as "is"
    by (rule fold_add) (rule assign_step_add)
  show ?thesis
    unfolding parse_line_def Let_def
    by (auto split: option.splits simp: loop [symmetric])
qed

lemma fold_parse_line_add:
  "fold parse_line ls mapping = mapping ++ fold parse_line ls Map.empty"
  by (rule fold_add) (rule parse_line_add)

lemma parseAnswerText_append:
  "parseAnswerText (t1 @ CHR 0x0A # t2) = parseAnswerText t1 ++ parseAnswerText t2"
  using fold_parse_line_add [of "split_char CHR 0x0A t2" "fold parse_line (split_char CHR 0x0A t1) Map.empty"]
  by (simp add: parseAnswerText_def split_char_append)

lemma parse_line_skipped: "skipped_line rawLine \<Longrightarrow> parse_line rawLine mapping = mapping"
  by (auto simp: skipped_line_def parse_line_def header_line_def Let_def)

lemma fold_parse_line_filter:
  "fold parse_line (filter (\<lambda>l. \<not> skipped_line l) ls) mapping = fold parse_line ls mapping"
  by (induction ls arbitrary: mapping) (simp_all add: parse_line_skipped)

lemma skipped_empty: "skipped_line []"
  by (simp add: skipped_line_def trimmed_def)

lemma parseAnswerText_lines:
  assumes "\<forall>l \<in> set ls. CHR 0x0A \<notin> set l"
  shows "parseAnswerText (join_char CHR 0x0A ls) = fold parse_line ls Map.empty"
proof (cases "ls = []")
  case True
  then show ?thesis
    using parse_line_skipped [OF skipped_empty] by (simp add: parseAnswerText_def)
next
  case False
  with assms show ?thesis by (simp add: parseAnswerText_def split_char_join)
qed

lemmas parse_eval =
  parseAnswerText_def parse_line_def trimmed_def isSpace_def startsWith_def
  startsWith_CaseInsensitive_def toLower_def toLower_char_def lineRe_match_def re_space_def
  re_digit_def separator_at_def split_SkipEmptyParts_def assign_step_def toInt_def
  digits_value_def digit_value_def value_at_def kNumQuestions_def char_of_def bit_Suc_0_iff
  Let_def

text \<open>
  Claim C7. \<open>parseAnswerText\<close> passes over every empty line, every header line and
  every line the pattern does not match: such a line leaves the mapping as it is, so a
  text gives the same mapping as the text without these lines, and a text of such lines
  only gives the empty mapping, which is a result like any other (the function has no
  error to raise). In particular \<open>"Part 1\n1  Yes"\<close> gives \<open>{1: "Yes"}\<close>.
\<close>

theorem parse_skips_lines:
  "(skipped_line rawLine \<longrightarrow> parse_line rawLine mapping = mapping) \<and>
   ((\<forall>l \<in> set ls. CHR 0x0A \<notin> set l) \<longrightarrow>
      parseAnswerText (join_char CHR 0x0A ls) =
        parseAnswerText (join_char CHR 0x0A (filter (\<lambda>l. \<not> skipped_line l) ls))) \<and>
   ((\<forall>l \<in> set ls. CHR 0x0A \<notin> set l \<and> skipped_line l) \<longrightarrow>
      parseAnswerText (join_char CHR 0x0A ls) = Map.empty) \<and>
   skipped_line [] \<and> skipped_line ''   '' \<and> skipped_line ''Part 1'' \<and>
   skipped_line '' PASSAGE 2'' \<and> skipped_line ''(Questions 1-10)'' \<and>
   skipped_line ''Answers:'' \<and> skipped_line ''12'' \<and> skipped_line ''7.  Yes'' \<and>
   parseAnswerText (''Part 1'' @ [CHR 0x0A] @ ''1  Yes'') = [1 \<mapsto> ''Yes''] \<and>
   parseAnswerText [] = Map.empty"
proof -
  have one: "skipped_line rawLine \<longrightarrow> parse_line rawLine mapping = mapping"
    by (simp add: parse_line_skipped)
  have filtered: "(\<forall>l \<in> set ls. CHR 0x0A \<notin> set l) \<longrightarrow>
      parseAnswerText (join_char CHR 0x0A ls) =
        parseAnswerText (join_char CHR 0x0A (filter (\<lambda>l. \<not> skipped_line l) ls))"
    by (simp add: parseAnswerText_lines fold_parse_line_filter)
  have none: "(\<forall>l \<in> set ls. CHR 0x0A \<notin> set l \<and> skipped_line l) \<longrightarrow>
      parseAnswerText (join_char CHR 0x0A ls) = Map.empty"
  proof
    assume a: "\<forall>l \<in> set ls. CHR 0x0A \<notin> set l \<and> skipped_line l"
    from a have "filter (\<lambda>l. \<not> skipped_line l) ls = []" by (simp add: filter_empty_conv)
    moreover have "fold parse_line ls Map.empty =
        fold parse_line (filter (\<lambda>l. \<not> skipped_line l) ls) Map.empty"
      by (simp add: fold_parse_line_filter)
    ultimately show "parseAnswerText (join_char CHR 0x0A ls) = Map.empty"
      using a by (simp add: parseAnswerText_lines)
  qed
  have lines: "skipped_line []" "skipped_line ''   ''" "skipped_line ''Part 1''"
    "skipped_line '' PASSAGE 2''" "skipped_line ''(Questions 1-10)''"
    "skipped_line ''Answers:''" "skipped_line ''12''" "skipped_line ''7.  Yes''"
    by (simp_all add: skipped_line_def header_line_def parse_eval)
  have ex: "parseAnswerText (''Part 1'' @ [CHR 0x0A] @ ''1  Yes'') = [1 \<mapsto> ''Yes'']"
    "parseAnswerText [] = Map.empty"
    by (simp_all add: parse_eval)
  show ?thesis by (intro conjI one filtered none lines ex)
qed

theorem parse_skips_lines_witness:
  "skipped_line ''Passage 3'' \<and> parse_line ''Passage 3'' [7 \<mapsto> ''B''] = [7 \<mapsto> ''B''] \<and>
   (CHR 0x0A \<notin> set ''Part 1'' \<and> CHR 0x0A \<notin> set ''1  Yes'' \<and> CHR 0x0A \<notin> set ''(see above)'') \<and>
   parseAnswerText (''Part 1'' @ [CHR 0x0A] @ ''1  Yes'' @ [CHR 0x0A] @ ''(see above)'') =
     parseAnswerText ''1  Yes'' \<and>
   parseAnswerText (''Part 1'' @ [CHR 0x0A] @ ''(see above)'') = Map.empty"
  using parse_skips_lines [of "''Passage 3''" "[7 \<mapsto> ''B'']" "[''Part 1'', ''1  Yes'', ''(see above)'']"]
    parse_skips_lines [of "''Passage 3''" "[7 \<mapsto> ''B'']" "[''Part 1'', ''(see above)'']"]
  by (simp add: skipped_line_def header_line_def trimmed_def isSpace_def startsWith_def
      startsWith_CaseInsensitive_def toLower_def toLower_char_def lineRe_match_def re_space_def
      re_digit_def char_of_def bit_Suc_0_iff Let_def)

subsection \<open>Lines of numbers and answers\<close>

lemma trimmed_id: "s \<noteq> [] \<Longrightarrow> \<not> isSpace (hd s) \<Longrightarrow> \<not> isSpace (last s) \<Longrightarrow> trimmed s = s"
proof -
  assume a: "s \<noteq> []" "\<not> isSpace (hd s)" "\<not> isSpace (last s)"
  then have "dropWhile isSpace s = s" by (cases s) auto
  moreover from a have "dropWhile isSpace (rev s) = rev s"
    by (cases "rev s") (auto simp: hd_rev)
  ultimately show ?thesis by (simp add: trimmed_def)
qed

lemma toInt_digits:
  "d \<noteq> [] \<Longrightarrow> list_all re_digit d \<Longrightarrow>
   toInt d = (if digits_value d \<le> 2147483647 then Some (digits_value d) else None)"
  by (simp add: toInt_def)

lemma assign_loop:
  assumes "list_all (\<lambda>d. d \<noteq> [] \<and> list_all re_digit d) ds" and "n \<le> length ds"
  shows "fold (assign_step ds parts) [0..<n] m q =
     (let hits = filter (\<lambda>i. digits_value (ds ! i) = q) [0..<n]
      in if hits \<noteq> [] \<and> 1 \<le> q \<and> q \<le> 40 then Some (answer_for parts (last hits)) else m q)"
  using assms(2)
proof (induction n)
  case 0
  show ?case by simp
next
  case (Suc n)
  then have n: "n < length ds" by simp
  with assms(1) have d: "ds ! n \<noteq> []" "list_all re_digit (ds ! n)"
    by (simp_all add: list_all_length)
  let ?m = "fold (assign_step ds parts) [0..<n] m"
  let ?hits = "filter (\<lambda>i. digits_value (ds ! i) = q) [0..<n]"
  have IH: "?m q = (if ?hits \<noteq> [] \<and> 1 \<le> q \<and> q \<le> 40
      then Some (answer_for parts (last ?hits)) else m q)"
    using Suc by (simp add: Let_def)
  have step: "fold (assign_step ds parts) [0..<Suc n] m q = assign_step ds parts n ?m q"
    by simp
  show ?case
  proof (cases "digits_value (ds ! n) = q")
    case True
    then have hits: "filter (\<lambda>i. digits_value (ds ! i) = q) [0..<Suc n] = ?hits @ [n]"
      by simp
    show ?thesis
    proof (cases "1 \<le> q \<and> q \<le> 40")
      case True
      with \<open>digits_value (ds ! n) = q\<close> have "assign_step ds parts n ?m q = Some (answer_for parts n)"
        by (simp add: assign_step_def toInt_digits [OF d] kNumQuestions_def answer_for_def value_at_def)
      with True show ?thesis
        unfolding step hits Let_def by simp
    next
      case False
      with \<open>digits_value (ds ! n) = q\<close> have "assign_step ds parts n ?m q = ?m q"
        by (auto simp: assign_step_def toInt_digits [OF d] kNumQuestions_def)
      with False IH show ?thesis
        unfolding step hits Let_def by auto
    qed
  next
    case False
    then have hits: "filter (\<lambda>i. digits_value (ds ! i) = q) [0..<Suc n] = ?hits"
      by simp
    from False have "assign_step ds parts n ?m q = ?m q"
      by (auto simp: assign_step_def toInt_digits [OF d])
    with IH show ?thesis
      unfolding step hits Let_def by simp
  qed
qed

lemma assign_step_dom:
  "dom m \<subseteq> {1..40} \<Longrightarrow> dom (assign_step ns as i m) \<subseteq> {1..40}"
  by (auto simp: assign_step_def kNumQuestions_def split: option.splits if_splits)

lemma fold_assign_dom:
  "dom m \<subseteq> {1..40} \<Longrightarrow> dom (fold (assign_step ns as) is m) \<subseteq> {1..40}"
  by (induction "is" arbitrary: m) (simp_all add: assign_step_dom)

lemma parse_line_dom: "dom m \<subseteq> {1..40} \<Longrightarrow> dom (parse_line rawLine m) \<subseteq> {1..40}"
  unfolding parse_line_def Let_def
  by (simp add: fold_assign_dom split: option.splits prod.splits)

lemma fold_parse_line_dom: "dom m \<subseteq> {1..40} \<Longrightarrow> dom (fold parse_line ls m) \<subseteq> {1..40}"
  by (induction ls arbitrary: m) (simp_all add: parse_line_dom)

lemma parseAnswerText_dom: "dom (parseAnswerText text) \<subseteq> {1..40}"
  by (simp add: parseAnswerText_def fold_parse_line_dom)

lemma digit_not_header: "re_digit c \<Longrightarrow> \<not> header_line (c # rest)"
proof -
  assume d: "re_digit c"
  then have low: "toLower_char c = c"
    by (simp add: toLower_char_def re_digit_def Let_def)
  have p: "toLower_char CHR ''p'' = CHR ''p''"
    by (simp add: toLower_char_def)
  from d have "c \<noteq> CHR ''p''" "c \<noteq> CHR ''(''"
    by (auto simp: re_digit_def)
  with low p show ?thesis
    by (simp add: header_line_def startsWith_CaseInsensitive_def startsWith_def toLower_def)
qed

lemma digit_not_space: "re_digit c \<Longrightarrow> \<not> isSpace c \<and> \<not> re_space c \<and> c \<noteq> CHR ''&''"
  by (auto simp: re_digit_def isSpace_def re_space_def Let_def)

lemma space_not_digit: "re_space c \<Longrightarrow> \<not> re_digit c \<and> c \<noteq> CHR ''&'' \<and> c \<noteq> CHR '',''"
  by (auto simp: re_digit_def re_space_def Let_def)

lemma takeWhile_prefix:
  "list_all P xs \<Longrightarrow> ys = [] \<or> \<not> P (hd ys) \<Longrightarrow> takeWhile P (xs @ ys) = xs"
  by (cases ys) (auto simp: list_all_iff takeWhile_append2 intro: takeWhile_eq_all_conv [THEN iffD2])

lemma dropWhile_prefix:
  "list_all P xs \<Longrightarrow> ys = [] \<or> \<not> P (hd ys) \<Longrightarrow> dropWhile P (xs @ ys) = ys"
  by (cases ys) (auto simp: list_all_iff dropWhile_append2)

lemma match_numbers_join:
  assumes "number_tokens ds" and "rest = [] \<or> (\<not> re_digit (hd rest) \<and> hd rest \<noteq> CHR ''&'')"
  shows "match_numbers (join_char CHR ''&'' ds @ rest) = Some (join_char CHR ''&'' ds, rest)"
  using assms(1)
proof (induction "CHR ''&''" ds rule: join_char.induct)
  case 1
  then show ?case by (simp add: number_tokens_def)
next
  case (2 d)
  then have d: "d \<noteq> []" "list_all re_digit d" by (simp_all add: number_tokens_def)
  have t: "takeWhile re_digit (d @ rest) = d" and r: "dropWhile re_digit (d @ rest) = rest"
    using d assms(2) by (auto intro: takeWhile_prefix dropWhile_prefix)
  show ?case
    using d assms(2)
    by (subst match_numbers.simps) (auto simp: t r Let_def split: list.splits simp del: match_numbers.simps)
next
  case (3 d e ds)
  then have d: "d \<noteq> []" "list_all re_digit d" and rest: "number_tokens (e # ds)"
    by (simp_all add: number_tokens_def)
  let ?tail = "join_char CHR ''&'' (e # ds) @ rest"
  have amp: "\<not> re_digit CHR ''&''" by (simp add: re_digit_def)
  have t: "takeWhile re_digit (d @ CHR ''&'' # ?tail) = d"
    and r: "dropWhile re_digit (d @ CHR ''&'' # ?tail) = CHR ''&'' # ?tail"
    using d amp by (auto intro: takeWhile_prefix dropWhile_prefix)
  have IH: "match_numbers ?tail = Some (join_char CHR ''&'' (e # ds), rest)"
    using 3 rest by simp
  have "match_numbers (d @ CHR ''&'' # ?tail) = Some (d @ CHR ''&'' # join_char CHR ''&'' (e # ds), rest)"
    using d by (subst match_numbers.simps) (simp add: t r IH Let_def del: match_numbers.simps)
  then show ?case by simp
qed

lemma join_char_hd:
  "number_tokens ds \<Longrightarrow> join_char CHR ''&'' ds \<noteq> [] \<and> re_digit (hd (join_char CHR ''&'' ds))"
  by (induction "CHR ''&''" ds rule: join_char.induct) (auto simp: number_tokens_def list_all_iff)

lemma lineRe_match_line:
  assumes "number_tokens ds" and "line_space ws" and "answer_segment seg"
  shows "lineRe_match (join_char CHR ''&'' ds @ ws @ seg) = Some (join_char CHR ''&'' ds, seg)"
proof -
  let ?tok = "join_char CHR ''&'' ds"
  from join_char_hd [OF assms(1)] obtain c cs where tok: "?tok = c # cs" and c: "re_digit c"
    by (cases ?tok) auto
  have "\<not> re_space c"
    using digit_not_space [OF c] by simp
  then have "dropWhile re_space ((c # cs) @ ws @ seg) = (c # cs) @ ws @ seg"
    by simp
  then have lead: "dropWhile re_space (?tok @ ws @ seg) = ?tok @ ws @ seg"
    by (simp only: tok)
  from assms(2) obtain w ws' where ws: "ws = w # ws'" and w: "re_space w"
    by (cases ws) (simp_all add: line_space_def)
  have "ws @ seg = [] \<or> (\<not> re_digit (hd (ws @ seg)) \<and> hd (ws @ seg) \<noteq> CHR ''&'')"
    using space_not_digit [OF w] ws by simp
  then have m: "match_numbers (?tok @ ws @ seg) = Some (?tok, ws @ seg)"
    by (rule match_numbers_join [OF assms(1)])
  from assms(3) have seg: "seg \<noteq> []" "\<not> re_space (hd seg)"
    by (auto simp: answer_segment_def re_space_def isSpace_def Let_def)
  have all: "list_all re_space ws"
    using assms(2) by (simp add: line_space_def list_all_iff)
  have t: "takeWhile re_space (ws @ seg) = ws"
    using all seg(2) by (intro takeWhile_prefix) simp_all
  have d: "dropWhile re_space (ws @ seg) = seg"
    using all seg(2) by (intro dropWhile_prefix) simp_all
  have wsne: "ws \<noteq> []"
    using ws by simp
  show ?thesis
    unfolding lineRe_match_def lead m
    by (simp add: t d wsne seg(1) Let_def del: match_numbers.simps)
qed

lemma parse_line_shape:
  assumes "number_tokens ds" and "line_space ws" and "answer_segment seg"
  shows "parse_line (join_char CHR ''&'' ds @ ws @ seg) m q =
     (case line_result ds (answerList_of seg) q of None \<Rightarrow> m q | Some a \<Rightarrow> Some a)"
proof -
  let ?tok = "join_char CHR ''&'' ds"
  let ?line = "?tok @ ws @ seg"
  from join_char_hd [OF assms(1)] obtain c cs where tok: "?tok = c # cs" and c: "re_digit c"
    by (cases ?tok) auto
  from assms(3) have seg: "seg \<noteq> []" "\<not> isSpace (hd seg)" "\<not> isSpace (last seg)"
    by (simp_all add: answer_segment_def)
  have line: "trimmed ?line = ?line"
    using seg tok digit_not_space [OF c] by (intro trimmed_id) simp_all
  have nohead: "\<not> header_line ?line"
    using digit_not_header [OF c] tok by simp
  have nohead': "\<not> startsWith_CaseInsensitive ?line ''part''"
    "\<not> startsWith_CaseInsensitive ?line ''passage''" "\<not> startsWith ?line ''(''"
    using nohead by (simp_all add: header_line_def)
  have segt: "trimmed seg = seg"
    using seg by (rule trimmed_id)
  have amp: "\<forall>d \<in> set ds. CHR ''&'' \<notin> set d"
    using assms(1) digit_not_space by (auto simp: number_tokens_def list_all_iff)
  have parts: "split_char CHR ''&'' ?tok = ds"
    using assms(1) amp by (intro split_char_join) (simp_all add: number_tokens_def)
  have ds: "list_all (\<lambda>d. d \<noteq> [] \<and> list_all re_digit d) ds"
    using assms(1) by (simp add: number_tokens_def)
  have ne: "?line \<noteq> []"
    using seg(1) by simp
  have "parse_line ?line m = fold (assign_step ds (answerList_of seg)) [0..<length ds] m"
    unfolding parse_line_def Let_def line
    by (simp only: ne nohead' lineRe_match_line [OF assms] segt seg(1) parts answerList_of_def
        Let_def if_False simp_thms option.case prod.case)
  then show ?thesis
    using assign_loop [OF ds order_refl, of "answerList_of seg" m q]
    by (simp add: line_result_def Let_def)
qed

lemma parseAnswerText_shape:
  assumes "number_tokens ds" and "line_space ws" and "answer_segment seg"
  shows "parseAnswerText (join_char CHR ''&'' ds @ ws @ seg) = line_result ds (answerList_of seg)"
proof
  fix q
  have nl: "CHR 0x0A \<notin> set (join_char CHR ''&'' ds @ ws @ seg)"
  proof -
    have "CHR 0x0A \<notin> set (join_char CHR ''&'' ds)"
      using assms(1)
      by (induction "CHR ''&''" ds rule: join_char.induct)
        (auto simp: number_tokens_def list_all_iff re_digit_def)
    moreover have "CHR 0x0A \<notin> set ws" using assms(2) by (auto simp: line_space_def list_all_iff)
    moreover have "CHR 0x0A \<notin> set seg" using assms(3) by (simp add: answer_segment_def)
    ultimately show ?thesis by simp
  qed
  show "parseAnswerText (join_char CHR ''&'' ds @ ws @ seg) q = line_result ds (answerList_of seg) q"
    using parse_line_shape [OF assms, of Map.empty q]
    by (simp add: parseAnswerText_def split_char_no_sep [OF nl] split: option.splits)
qed

subsection \<open>The split at the commas\<close>

lemma comma_not_space: "\<not> re_space CHR '',''"
  by (simp add: re_space_def)

lemma separator_at_none:
  "CHR '','' \<notin> set s \<Longrightarrow> separator_at (s @ t) = (if list_all re_space s then separator_at t else None)"
proof (induction s)
  case Nil
  show ?case by simp
next
  case (Cons c s)
  then show ?case
    by (cases "re_space c") (auto simp: separator_at_def split: list.splits)
qed

lemma separator_at_comma: "separator_at (CHR '','' # t) = Some (dropWhile re_space t)"
  by (simp add: separator_at_def comma_not_space)

lemma split_separator_no_comma:
  "CHR '','' \<notin> set p \<Longrightarrow> split_separator piece p = [piece @ p]"
proof (induction p arbitrary: piece)
  case Nil
  show ?case by simp
next
  case (Cons c p)
  have "separator_at ((c # p) @ []) = None"
    using Cons.prems by (subst separator_at_none) (simp_all add: separator_at_def)
  then show ?case using Cons by simp
qed

lemma rstrip_Cons:
  "rev (dropWhile re_space (rev (c # cs))) =
     (if list_all re_space (c # cs) then [] else c # rev (dropWhile re_space (rev cs)))"
proof (cases "list_all re_space cs")
  case True
  then have all: "\<forall>x \<in> set (rev cs). re_space x"
    by (simp add: list_all_iff)
  then have "dropWhile re_space (rev cs @ [c]) = dropWhile re_space [c]"
    by (subst dropWhile_append) (rule if_P)
  moreover from all have "dropWhile re_space (rev cs) = []"
    by simp
  ultimately show ?thesis using True by simp
next
  case False
  then obtain x where x: "x \<in> set (rev cs)" "\<not> re_space x"
    by (auto simp: list_all_iff)
  then have "dropWhile re_space (rev cs @ [c]) = dropWhile re_space (rev cs) @ [c]"
    by (rule dropWhile_append1)
  with False show ?thesis by simp
qed

lemma split_separator_comma:
  "CHR '','' \<notin> set p \<Longrightarrow>
   split_separator piece (p @ CHR '','' # t) =
     (piece @ rev (dropWhile re_space (rev p))) # split_separator [] (dropWhile re_space t)"
proof (induction p arbitrary: piece)
  case Nil
  show ?case by (simp add: separator_at_comma)
next
  case (Cons c p)
  have sep: "separator_at (c # p @ CHR '','' # t) =
      (if list_all re_space (c # p) then Some (dropWhile re_space t) else None)"
    using separator_at_none [of "c # p" "CHR '','' # t"] Cons.prems
    by (simp add: separator_at_comma)
  show ?case
  proof (cases "list_all re_space (c # p)")
    case True
    then have "rev (dropWhile re_space (rev (c # p))) = []"
      by (simp only: rstrip_Cons if_True)
    moreover from sep have "separator_at (c # p @ CHR '','' # t) = Some (dropWhile re_space t)"
      by (simp only: True if_True)
    then have "split_separator piece (c # p @ CHR '','' # t) =
        piece # split_separator [] (dropWhile re_space t)"
      by simp
    ultimately show ?thesis by simp
  next
    case False
    then have r: "rev (dropWhile re_space (rev (c # p))) = c # rev (dropWhile re_space (rev p))"
      by (simp only: rstrip_Cons if_False)
    from sep have "separator_at (c # p @ CHR '','' # t) = None"
      by (simp only: False if_False)
    then have "split_separator piece (c # p @ CHR '','' # t) =
        split_separator (piece @ [c]) (p @ CHR '','' # t)"
      by simp
    also have "\<dots> = ((piece @ [c]) @ rev (dropWhile re_space (rev p))) #
        split_separator [] (dropWhile re_space t)"
      using Cons.prems by (intro Cons.IH) simp
    finally show ?thesis
      by (simp only: r append_Cons append_assoc append_Nil)
  qed
qed

lemma lstrip_join:
  "dropWhile re_space (join_char CHR '','' (q # qs)) = join_char CHR '','' (dropWhile re_space q # qs)"
  by (cases qs) (simp_all add: dropWhile_append3 comma_not_space)

lemma split_separator_join:
  "\<forall>p \<in> set (p0 # ps). CHR '','' \<notin> set p \<Longrightarrow>
   split_separator piece (join_char CHR '','' (p0 # ps)) =
     (if ps = [] then [piece @ p0]
      else (piece @ rev (dropWhile re_space (rev p0))) #
           map strip_re_space (butlast ps) @ [dropWhile re_space (last ps)])"
proof (induction ps arbitrary: p0 piece)
  case Nil
  then show ?case by (simp add: split_separator_no_comma)
next
  case (Cons q qs)
  have p0: "CHR '','' \<notin> set p0" using Cons.prems by simp
  have tail: "\<forall>p \<in> set (dropWhile re_space q # qs). CHR '','' \<notin> set p"
    using Cons.prems by (auto dest: set_dropWhileD)
  have "split_separator piece (join_char CHR '','' (p0 # q # qs)) =
      (piece @ rev (dropWhile re_space (rev p0))) #
      split_separator [] (join_char CHR '','' (dropWhile re_space q # qs))"
    using split_separator_comma [OF p0, of piece "join_char CHR '','' (q # qs)"]
    by (simp only: join_char.simps lstrip_join)
  also have "split_separator [] (join_char CHR '','' (dropWhile re_space q # qs)) =
      (if qs = [] then [dropWhile re_space q]
       else rev (dropWhile re_space (rev (dropWhile re_space q))) #
            map strip_re_space (butlast qs) @ [dropWhile re_space (last qs)])"
    using Cons.IH [OF tail, of "[]"] by simp
  finally show ?case
    by (simp add: strip_re_space_def)
qed

lemma join_char_Cons_hd: "join_char sep ((c # h) # t) = c # join_char sep (h # t)"
  by (cases t) simp_all

lemma join_split_char: "join_char sep (split_char sep s) = s"
proof (induction s)
  case Nil
  show ?case by simp
next
  case (Cons c s)
  obtain h t where parts: "split_char sep s = h # t"
    by (cases "split_char sep s") simp_all
  with Cons show ?case
    by (cases "c = sep") (simp_all add: join_char_Cons_hd Let_def)
qed

lemma split_char_pieces: "p \<in> set (split_char sep s) \<Longrightarrow> sep \<notin> set p"
proof (induction s arbitrary: p)
  case Nil
  then show ?case by simp
next
  case (Cons c s)
  obtain h t where parts: "split_char sep s = h # t"
    by (cases "split_char sep s") simp_all
  with Cons show ?case
    by (cases "c = sep") (auto simp: Let_def)
qed

lemma hd_join_char: "p0 \<noteq> [] \<Longrightarrow> hd (join_char sep (p0 # ps)) = hd p0"
  by (cases ps) simp_all

lemma join_char_Nil: "(join_char sep ps = []) = (ps = [] \<or> ps = [[]])"
  by (induction sep ps rule: join_char.induct) simp_all

lemma last_join_char: "ps \<noteq> [] \<Longrightarrow> last ps \<noteq> [] \<Longrightarrow> last (join_char sep ps) = last (last ps)"
proof (induction sep ps rule: join_char.induct)
  case (1 sep)
  then show ?case by simp
next
  case (2 sep p)
  then show ?case by simp
next
  case (3 sep p q ps)
  then have "join_char sep (q # ps) \<noteq> []"
    by (auto simp: join_char_Nil)
  with 3 show ?case by simp
qed

lemma lstrip_id: "s = [] \<or> \<not> re_space (hd s) \<Longrightarrow> dropWhile re_space s = s"
  by (cases s) auto

lemma rstrip_id: "s = [] \<or> \<not> re_space (last s) \<Longrightarrow> rev (dropWhile re_space (rev s)) = s"
  using lstrip_id [of "rev s"] by (cases "s = []") (simp_all add: hd_rev)

lemma last_lstrip:
  "s \<noteq> [] \<Longrightarrow> \<not> re_space (last s) \<Longrightarrow>
   dropWhile re_space s \<noteq> [] \<and> last (dropWhile re_space s) = last s"
proof -
  assume a: "s \<noteq> []" "\<not> re_space (last s)"
  then have ne: "dropWhile re_space s \<noteq> []"
    using last_in_set [of s] by (auto simp: dropWhile_eq_Nil_conv)
  from ne have "last (takeWhile re_space s @ dropWhile re_space s) = last (dropWhile re_space s)"
    by (rule last_appendR)
  then have "last s = last (dropWhile re_space s)"
    by (simp only: takeWhile_dropWhile_id)
  with ne show ?thesis by simp
qed

lemma split_separator_spec:
  assumes "seg = [] \<or> (\<not> re_space (hd seg) \<and> \<not> re_space (last seg))"
  shows "split_separator [] seg = map strip_re_space (split_char CHR '','' seg)"
proof -
  obtain p0 ps where parts: "split_char CHR '','' seg = p0 # ps"
    by (cases "split_char CHR '','' seg") simp_all
  have free: "\<forall>p \<in> set (p0 # ps). CHR '','' \<notin> set p"
    using split_char_pieces [of _ "CHR '',''" seg] parts by simp
  have seg: "seg = join_char CHR '','' (p0 # ps)"
    using join_split_char [of "CHR '',''" seg] parts by simp
  show ?thesis
  proof (cases "ps = []")
    case True
    with seg have "seg = p0" by simp
    moreover have "strip_re_space seg = seg"
      using assms by (cases "seg = []") (simp_all add: strip_re_space_def lstrip_id rstrip_id)
    ultimately show ?thesis
      using parts True free by (simp add: split_separator_no_comma)
  next
    case False
    then have segne: "seg \<noteq> []"
      using seg by (cases ps) simp_all
    with assms have ends: "\<not> re_space (hd seg)" "\<not> re_space (last seg)" by simp_all
    have first: "dropWhile re_space p0 = p0"
    proof (cases "p0 = []")
      case True
      then show ?thesis by simp
    next
      case False
      then have "hd seg = hd p0" using seg hd_join_char by simp
      with ends(1) show ?thesis by (simp add: lstrip_id)
    qed
    have final: "rev (dropWhile re_space (rev (dropWhile re_space (last ps)))) = dropWhile re_space (last ps)"
    proof (cases "last ps = []")
      case True
      then show ?thesis by simp
    next
      case l: False
      then have "last seg = last (last ps)"
        using seg False last_join_char [of "p0 # ps" "CHR '',''"] by simp
      with ends(2) l have "\<not> re_space (last (dropWhile re_space (last ps)))"
        using last_lstrip [of "last ps"] by simp
      then show ?thesis by (simp add: rstrip_id)
    qed
    have bl: "butlast ps @ [last ps] = ps"
      using False by simp
    have "map strip_re_space (p0 # ps) = strip_re_space p0 # map strip_re_space (butlast ps @ [last ps])"
      by (simp only: bl list.map)
    then have "map strip_re_space (p0 # ps) =
        rev (dropWhile re_space (rev p0)) #
        map strip_re_space (butlast ps) @ [dropWhile re_space (last ps)]"
      by (simp add: strip_re_space_def first final)
    then show ?thesis
      using split_separator_join [OF free, of "[]"] False seg parts by simp
  qed
qed

lemma answerList_of_spec:
  "answer_segment seg \<Longrightarrow> answerList_of seg = comma_parts seg"
proof -
  assume "answer_segment seg"
  then have "seg = [] \<or> (\<not> re_space (hd seg) \<and> \<not> re_space (last seg))"
    using re_space_isSpace by (auto simp: answer_segment_def)
  then show ?thesis
    by (simp add: answerList_of_def comma_parts_def split_SkipEmptyParts_def split_separator_spec)
qed

text \<open>
  Claim C6. A line made of numbers joined by \<open>&\<close>, white space and an answer segment
  gives the mapping in which every number between 1 and 40 has the answer at its
  position among the pieces of the segment between commas, the last piece standing in
  where the pieces end early, and no other number has an answer. A later line
  overwrites what an earlier line gave to the same number, and no key lies outside 1 to
  40. In particular \<open>"21&22   A, E"\<close> gives \<open>{21: "A", 22: "E"}\<close>, \<open>"5   Paris"\<close>
  gives \<open>{5: "Paris"}\<close> and \<open>"3&4&5  X"\<close> gives \<open>{3: "X", 4: "X", 5: "X"}\<close>.
\<close>

theorem parse_numbers_answers:
  "(number_tokens ds \<and> line_space ws \<and> answer_segment seg \<longrightarrow>
      parseAnswerText (join_char CHR ''&'' ds @ ws @ seg) = line_result ds (comma_parts seg)) \<and>
   parseAnswerText (t1 @ CHR 0x0A # t2) = parseAnswerText t1 ++ parseAnswerText t2 \<and>
   dom (parseAnswerText text) \<subseteq> {1..40} \<and>
   parseAnswerText ''21&22   A, E'' = [21 \<mapsto> ''A'', 22 \<mapsto> ''E''] \<and>
   parseAnswerText ''5   Paris'' = [5 \<mapsto> ''Paris''] \<and>
   parseAnswerText ''3&4&5  X'' = [3 \<mapsto> ''X'', 4 \<mapsto> ''X'', 5 \<mapsto> ''X''] \<and>
   parseAnswerText ''21&22 Paris'' = [21 \<mapsto> ''Paris'', 22 \<mapsto> ''Paris'']"
proof -
  have shape: "number_tokens ds \<and> line_space ws \<and> answer_segment seg \<longrightarrow>
      parseAnswerText (join_char CHR ''&'' ds @ ws @ seg) = line_result ds (comma_parts seg)"
    using parseAnswerText_shape [of ds ws seg] answerList_of_spec [of seg] by auto
  have later: "parseAnswerText (t1 @ CHR 0x0A # t2) = parseAnswerText t1 ++ parseAnswerText t2"
    by (rule parseAnswerText_append)
  have range: "dom (parseAnswerText text) \<subseteq> {1..40}"
    by (rule parseAnswerText_dom)
  have ex: "parseAnswerText ''21&22   A, E'' = [21 \<mapsto> ''A'', 22 \<mapsto> ''E'']"
    "parseAnswerText ''5   Paris'' = [5 \<mapsto> ''Paris'']"
    "parseAnswerText ''3&4&5  X'' = [3 \<mapsto> ''X'', 4 \<mapsto> ''X'', 5 \<mapsto> ''X'']"
    "parseAnswerText ''21&22 Paris'' = [21 \<mapsto> ''Paris'', 22 \<mapsto> ''Paris'']"
    by (simp_all add: parse_eval)
  show ?thesis by (intro conjI shape later range ex)
qed

theorem parse_numbers_answers_witness:
  "number_tokens [''7'', ''41'', ''8'', ''7''] \<and> line_space '' '' \<and> answer_segment ''B ,C'' \<and>
   parseAnswerText ''7&41&8&7 B ,C'' =
     line_result [''7'', ''41'', ''8'', ''7''] (comma_parts ''B ,C'') \<and>
   comma_parts ''B ,C'' = [''B'', ''C''] \<and>
   map (line_result [''7'', ''41'', ''8'', ''7''] [''B'', ''C'']) [7, 8, 41] =
     [Some ''C'', Some ''C'', None]"
  using parse_numbers_answers [of "[''7'', ''41'', ''8'', ''7'']" "'' ''" "''B ,C''"]
  by (simp add: number_tokens_def line_space_def answer_segment_def line_result_def
      comma_parts_def strip_re_space_def answer_for_def trimmed_def isSpace_def re_space_def
      re_digit_def digits_value_def digit_value_def Let_def)

section \<open>Properties of the saved file\<close>

lemma digit_char:
  "d < 10 \<Longrightarrow> re_digit (char_of (0x30 + d :: nat)) \<and> digit_value (char_of (0x30 + d :: nat)) = int d"
proof -
  assume d: "d < 10"
  then have n: "(of_char (char_of (0x30 + d :: nat)) :: nat) = 0x30 + d"
    by simp
  have "(of_char (char_of (0x30 + d :: nat)) :: int) = int (of_char (char_of (0x30 + d :: nat)) :: nat)"
    by (simp only: of_nat_of_char)
  with n have i: "(of_char (char_of (0x30 + d :: nat)) :: int) = 0x30 + int d"
    by simp
  from d show ?thesis
    unfolding re_digit_def digit_value_def Let_def n i by simp
qed

lemma digits_value_snoc: "digits_value (s @ [c]) = 10 * digits_value s + digit_value c"
  by (simp add: digits_value_def)

lemma decimal_digits: "decimal n \<noteq> [] \<and> list_all re_digit (decimal n)"
proof (induction n rule: decimal.induct)
  case (1 n)
  show ?case
  proof (cases "n < 10")
    case True
    then show ?thesis
      using digit_char [of n] by (subst (1 2) decimal.simps) simp
  next
    case False
    then have "n mod 10 < 10" by simp
    with False 1 show ?thesis
      using digit_char [of "n mod 10"] by (subst (1 2) decimal.simps) simp
  qed
qed

lemma digits_value_decimal: "digits_value (decimal n) = int n"
proof (induction n rule: decimal.induct)
  case (1 n)
  show ?case
  proof (cases "n < 10")
    case True
    then show ?thesis
      using digit_char [of n] by (subst decimal.simps) (simp add: digits_value_def)
  next
    case False
    have "n mod 10 < 10" by simp
    then have "digit_value (char_of (0x30 + n mod 10)) = int (n mod 10)"
      using digit_char [of "n mod 10"] by simp
    with False 1 have "digits_value (decimal n) = 10 * int (n div 10) + int (n mod 10)"
      by (subst decimal.simps) (simp add: digits_value_snoc)
    then show ?thesis by (simp flip: of_nat_mult of_nat_add add: zdiv_int zmod_int)
  qed
qed

lemma digit_not_comma_newline: "re_digit c \<Longrightarrow> c \<noteq> CHR '','' \<and> c \<noteq> CHR 0x0A"
  by (auto simp: re_digit_def)

lemma decimal_free: "CHR '','' \<notin> set (decimal n) \<and> CHR 0x0A \<notin> set (decimal n)"
  using decimal_digits [of n] digit_not_comma_newline by (auto simp: list_all_iff)

lemma reconstruct_line_saved:
  "CHR '','' \<notin> set a \<Longrightarrow> reconstruct_line (decimal k @ '','' @ a) = Some (int k, a)"
proof -
  assume a: "CHR '','' \<notin> set a"
  have "split_char CHR '','' (decimal k @ CHR '','' # a) = [decimal k, a]"
    using decimal_free [of k] a by (simp add: split_char_append split_char_no_sep)
  then show ?thesis
    using decimal_digits [of k] by (simp add: reconstruct_line_def digits_value_decimal)
qed

lemma reconstruct_line_empty: "reconstruct_line [] = None"
  by (simp add: reconstruct_line_def)

lemma split_lines:
  "\<forall>l \<in> set ls. sep \<notin> set l \<Longrightarrow>
   split_char sep (concat (map (\<lambda>l. l @ [sep]) ls)) = ls @ [[]]"
proof (induction ls)
  case Nil
  show ?case by simp
next
  case (Cons l ls)
  have "split_char sep (l @ sep # concat (map (\<lambda>l. l @ [sep]) ls)) =
      split_char sep l @ split_char sep (concat (map (\<lambda>l. l @ [sep]) ls))"
    by (rule split_char_append)
  with Cons show ?case by (simp add: split_char_no_sep)
qed

lemma save_text_lines:
  "save_text name as =
     name @ CHR 0x0A #
     concat (map (\<lambda>l. l @ [CHR 0x0A]) (map (\<lambda>i. decimal (i + 1) @ '','' @ as ! i) [0..<length as]))"
  by (simp add: save_text_def comp_def)

lemma split_save_text:
  assumes "CHR 0x0A \<notin> set name" and "\<forall>a \<in> set as. CHR 0x0A \<notin> set a"
  shows "split_char CHR 0x0A (save_text name as) =
     name # map (\<lambda>i. decimal (i + 1) @ '','' @ as ! i) [0..<length as] @ [[]]"
proof -
  let ?lines = "map (\<lambda>i. decimal (i + 1) @ '','' @ as ! i) [0..<length as]"
  have free: "\<forall>l \<in> set ?lines. CHR 0x0A \<notin> set l"
    using assms(2) decimal_free by auto
  have "split_char CHR 0x0A (save_text name as) =
      split_char CHR 0x0A name @ split_char CHR 0x0A (concat (map (\<lambda>l. l @ [CHR 0x0A]) ?lines))"
    unfolding save_text_lines by (rule split_char_append)
  then show ?thesis
    using assms(1) split_lines [OF free] by (simp add: split_char_no_sep)
qed

lemma reconstruct_fold:
  assumes "\<forall>a \<in> set as. CHR '','' \<notin> set a" and "n \<le> length as"
  shows "fold (\<lambda>line mapping. case reconstruct_line line of None \<Rightarrow> mapping
                 | Some (k, answer) \<Rightarrow> mapping(k \<mapsto> answer))
           (map (\<lambda>i. decimal (i + 1) @ '','' @ as ! i) [0..<n]) m =
         (\<lambda>q. if 1 \<le> q \<and> q \<le> int n then Some (as ! nat (q - 1)) else m q)"
  using assms(2)
proof (induction n)
  case 0
  show ?case by (auto simp: fun_eq_iff)
next
  case (Suc n)
  then have "as ! n \<in> set as" by simp
  with assms(1) have "CHR '','' \<notin> set (as ! n)" by simp
  then have line: "reconstruct_line (decimal (Suc n) @ CHR '','' # as ! n) = Some (int (Suc n), as ! n)"
    using reconstruct_line_saved [of "as ! n" "Suc n"] by simp
  let ?step = "\<lambda>line mapping. case reconstruct_line line of None \<Rightarrow> mapping
                 | Some (k, answer) \<Rightarrow> mapping(k \<mapsto> answer)"
  let ?line = "\<lambda>i. decimal (i + 1) @ '','' @ as ! i"
  have IH: "fold ?step (map ?line [0..<n]) m =
      (\<lambda>q. if 1 \<le> q \<and> q \<le> int n then Some (as ! nat (q - 1)) else m q)"
    using Suc by simp
  have "fold ?step (map ?line [0..<Suc n]) m = (fold ?step (map ?line [0..<n]) m)(int (n + 1) \<mapsto> as ! n)"
    using line by (simp del: of_nat_Suc)
  also have "\<dots> = (\<lambda>q. if 1 \<le> q \<and> q \<le> int (Suc n) then Some (as ! nat (q - 1)) else m q)"
  proof
    fix q
    show "((fold ?step (map ?line [0..<n]) m)(int (n + 1) \<mapsto> as ! n)) q =
        (if 1 \<le> q \<and> q \<le> int (Suc n) then Some (as ! nat (q - 1)) else m q)"
    proof (cases "q = int (n + 1)")
      case True
      then have "nat (q - 1) = n" by simp
      with True show ?thesis by simp
    next
      case False
      then show ?thesis unfolding IH by auto
    qed
  qed
  finally show ?case .
qed

lemma reconstruct_saved:
  assumes "CHR 0x0A \<notin> set name"
    and "\<forall>a \<in> set as. CHR '','' \<notin> set a \<and> CHR 0x0A \<notin> set a"
  shows "reconstruct (save_text name as) =
     (\<lambda>q. if 1 \<le> q \<and> q \<le> int (length as) then Some (as ! nat (q - 1)) else None)"
proof -
  from assms(2) have c: "\<forall>a \<in> set as. CHR '','' \<notin> set a" and n: "\<forall>a \<in> set as. CHR 0x0A \<notin> set a"
    by simp_all
  show ?thesis
    unfolding reconstruct_def split_save_text [OF assms(1) n]
    using reconstruct_fold [OF c order_refl, of Map.empty]
    by (simp add: reconstruct_line_empty)
qed

lemma activePanel_name:
  "activePanel window = Some (name, panel) \<Longrightarrow> CHR 0x0A \<notin> set name"
  by (auto simp: activePanel_def Let_def split: if_splits)

text \<open>
  Claim C8, as written, fails for an answer that holds a line feed and no comma (a line
  edit keeps a line feed that is pasted into it): the answer is written on two lines,
  and the reader gets its first line only.
\<close>

theorem save_roundtrip_counterexample:
  "list_all (\<lambda>a. CHR '','' \<notin> set a)
     (answers \<lparr>panelSectionName = ''Listening'', panelGroups = [],
        userEdits = [''Mr\<newline>Smith''], keyEdits = [[]], statusLabels = [NoVerdict]\<rparr>) \<and>
   saveAnswers \<lparr>currentIndex = 1,
       listeningPanel = \<lparr>panelSectionName = ''Listening'', panelGroups = [],
          userEdits = [''Mr\<newline>Smith''], keyEdits = [[]], statusLabels = [NoVerdict]\<rparr>,
       readingPanel = \<lparr>panelSectionName = ''Reading'', panelGroups = [],
          userEdits = [], keyEdits = [], statusLabels = []\<rparr>\<rparr> ''answers.txt'' True
     = Written ''answers.txt'' ''Listening\<newline>1,Mr\<newline>Smith\<newline>'' \<and>
   answer_sequence (reconstruct ''Listening\<newline>1,Mr\<newline>Smith\<newline>'') 1 = [Some ''Mr''] \<and>
   answer_sequence (reconstruct ''Listening\<newline>1,Mr\<newline>Smith\<newline>'') 1
     \<noteq> map Some (answers \<lparr>panelSectionName = ''Listening'', panelGroups = [],
        userEdits = [''Mr\<newline>Smith''], keyEdits = [[]], statusLabels = [NoVerdict]\<rparr>)"
  by (simp add: answers_def trimmed_def isSpace_def saveAnswers_def activePanel_def save_text_def
      decimal.simps char_of_def bit_Suc_0_iff answer_sequence_def reconstruct_def
      reconstruct_line_def re_digit_def digits_value_def digit_value_def Let_def)

text \<open>
  Claim C8, amended. Round trip: when no answer holds a comma or a line feed,
  \<open>saveAnswers\<close> writes the section name on line 1 and then one line
  \<open><questionNumber>,<answerText>\<close> per question in index order, each ended by a line
  feed, and reconstructing the mapping from these lines gives back the answers in their
  order, with the question numbers 1 to the number of answers as its keys.
\<close>

theorem save_roundtrip:
  "activePanel window = Some (name, panel) \<and> filePath \<noteq> [] \<and>
   list_all (\<lambda>a. CHR '','' \<notin> set a \<and> CHR 0x0A \<notin> set a) (answers panel) \<longrightarrow>
     saveAnswers window filePath True = Written filePath (save_text name (answers panel)) \<and>
     split_char CHR 0x0A (save_text name (answers panel)) =
       name # map (\<lambda>i. decimal (i + 1) @ '','' @ answers panel ! i) [0..<length (answers panel)] @ [[]] \<and>
     answer_sequence (reconstruct (save_text name (answers panel))) (length (answers panel)) =
       map Some (answers panel) \<and>
     dom (reconstruct (save_text name (answers panel))) = {1..int (length (answers panel))}"
proof (intro impI, elim conjE)
  assume active: "activePanel window = Some (name, panel)" and path: "filePath \<noteq> []"
    and free: "list_all (\<lambda>a. CHR '','' \<notin> set a \<and> CHR 0x0A \<notin> set a) (answers panel)"
  let ?as = "answers panel"
  have name: "CHR 0x0A \<notin> set name"
    using active by (rule activePanel_name)
  from free have both: "\<forall>a \<in> set ?as. CHR '','' \<notin> set a \<and> CHR 0x0A \<notin> set a"
    by (simp add: list_all_iff)
  then have nl: "\<forall>a \<in> set ?as. CHR 0x0A \<notin> set a" by simp
  have saved: "saveAnswers window filePath True = Written filePath (save_text name ?as)"
    using active path by (simp add: saveAnswers_def)
  have format: "split_char CHR 0x0A (save_text name ?as) =
       name # map (\<lambda>i. decimal (i + 1) @ '','' @ ?as ! i) [0..<length ?as] @ [[]]"
    by (rule split_save_text [OF name nl])
  have r: "reconstruct (save_text name ?as) =
     (\<lambda>q. if 1 \<le> q \<and> q \<le> int (length ?as) then Some (?as ! nat (q - 1)) else None)"
    by (rule reconstruct_saved [OF name both])
  have seq: "answer_sequence (reconstruct (save_text name ?as)) (length ?as) = map Some ?as"
    unfolding r answer_sequence_def by (rule nth_equalityI) simp_all
  have d: "dom (reconstruct (save_text name ?as)) = {1..int (length ?as)}"
    unfolding r by (auto simp: dom_def)
  show "saveAnswers window filePath True = Written filePath (save_text name ?as) \<and>
     split_char CHR 0x0A (save_text name ?as) =
       name # map (\<lambda>i. decimal (i + 1) @ '','' @ ?as ! i) [0..<length ?as] @ [[]] \<and>
     answer_sequence (reconstruct (save_text name ?as)) (length ?as) = map Some ?as \<and>
     dom (reconstruct (save_text name ?as)) = {1..int (length ?as)}"
    by (intro conjI saved format seq d)
qed

theorem save_roundtrip_witness:
  "activePanel \<lparr>currentIndex = 2,
       listeningPanel = \<lparr>panelSectionName = ''Listening'', panelGroups = [],
          userEdits = [], keyEdits = [], statusLabels = []\<rparr>,
       readingPanel = \<lparr>panelSectionName = ''Reading'', panelGroups = [],
          userEdits = ['' TRUE'', [], ''not given''], keyEdits = [[], [], []],
          statusLabels = [NoVerdict, NoVerdict, NoVerdict]\<rparr>\<rparr> =
     Some (''Reading'', \<lparr>panelSectionName = ''Reading'', panelGroups = [],
          userEdits = ['' TRUE'', [], ''not given''], keyEdits = [[], [], []],
          statusLabels = [NoVerdict, NoVerdict, NoVerdict]\<rparr>) \<and>
   answers \<lparr>panelSectionName = ''Reading'', panelGroups = [],
          userEdits = ['' TRUE'', [], ''not given''], keyEdits = [[], [], []],
          statusLabels = [NoVerdict, NoVerdict, NoVerdict]\<rparr> = [''TRUE'', [], ''not given''] \<and>
   save_text ''Reading'' [''TRUE'', [], ''not given''] =
     ''Reading\<newline>1,TRUE\<newline>2,\<newline>3,not given\<newline>'' \<and>
   answer_sequence (reconstruct ''Reading\<newline>1,TRUE\<newline>2,\<newline>3,not given\<newline>'')
       (length [''TRUE'', [], ''not given'']) =
     [Some ''TRUE'', Some [], Some ''not given'']"
  using save_roundtrip [of "\<lparr>currentIndex = 2,
       listeningPanel = \<lparr>panelSectionName = ''Listening'', panelGroups = [],
          userEdits = [], keyEdits = [], statusLabels = []\<rparr>,
       readingPanel = \<lparr>panelSectionName = ''Reading'', panelGroups = [],
          userEdits = ['' TRUE'', [], ''not given''], keyEdits = [[], [], []],
          statusLabels = [NoVerdict, NoVerdict, NoVerdict]\<rparr>\<rparr>" "''Reading''"
       "\<lparr>panelSectionName = ''Reading'', panelGroups = [],
          userEdits = ['' TRUE'', [], ''not given''], keyEdits = [[], [], []],
          statusLabels = [NoVerdict, NoVerdict, NoVerdict]\<rparr>" "''answers.txt''"]
  by (simp add: activePanel_def answers_def trimmed_def isSpace_def save_text_def decimal.simps
      char_of_def bit_Suc_0_iff Let_def)

end
